theory Spec2Isabelle
  imports Main "HOL-Library.AList"
begin

section \<open>Strings, characters and failures\<close>

text \<open>
  A Python \<open>str\<close> is a sequence of Unicode code points; a code point is a natural
  number and a string literal of the source is written \<open>u ''...''\<close>.
\<close>

type_synonym ustr = "nat list"

definition u :: "string \<Rightarrow> ustr" where
  "u s = map of_char s"

text \<open>
  The exceptions the module can raise: \<open>InvalidURL\<close> (its own), \<open>TypeError\<close>
  (an invalid keyword argument), and the codec errors of \<open>str.encode\<close> and
  \<open>bytes.decode\<close>.
\<close>

datatype error = InvalidURL | TypeError | UnicodeEncodeError | UnicodeDecodeError

type_synonym 'a result = "error + 'a"

definition bind :: "'a result \<Rightarrow> ('a \<Rightarrow> 'b result) \<Rightarrow> 'b result" where
  "bind m f = (case m of Inl e \<Rightarrow> Inl e | Inr x \<Rightarrow> f x)"

definition MAX_URL_LENGTH :: nat where
  "MAX_URL_LENGTH = 65536"

definition UNRESERVED_CHARACTERS :: ustr where
  "UNRESERVED_CHARACTERS =
     u ''ABCDEFGHIJKLMNOPQRSTUVWXYZabcdefghijklmnopqrstuvwxyz0123456789-._~''"

definition SUB_DELIMS :: ustr where
  "SUB_DELIMS = u ''!$&'' @ [39] @ u ''()*+,;=''"

subsection \<open>Character classes of the regular expressions\<close>

definition is_digit :: "nat \<Rightarrow> bool" where
  "is_digit c = (48 \<le> c \<and> c \<le> 57)"

definition is_alpha :: "nat \<Rightarrow> bool" where
  "is_alpha c = ((65 \<le> c \<and> c \<le> 90) \<or> (97 \<le> c \<and> c \<le> 122))"

definition is_hex :: "nat \<Rightarrow> bool" where
  "is_hex c = ((65 \<le> c \<and> c \<le> 70) \<or> (97 \<le> c \<and> c \<le> 102) \<or> is_digit c)"

definition is_scheme_char :: "nat \<Rightarrow> bool" where
  "is_scheme_char c = (is_alpha c \<or> is_digit c \<or> c = 43 \<or> c = 46 \<or> c = 45)"

text \<open>\<open>char.isascii() and not char.isprintable()\<close>: the C0 controls and DEL.\<close>

definition is_ascii_control :: "nat \<Rightarrow> bool" where
  "is_ascii_control c = (c < 32 \<or> c = 127)"

subsection \<open>Percent-encoding\<close>

text \<open>
  \<open>char.encode("utf-8")\<close>: one to four bytes; a lone surrogate (and, outside the
  type, a value above U+10FFFF) raises \<open>UnicodeEncodeError\<close>.
\<close>

definition utf8 :: "nat \<Rightarrow> nat list result" where
  "utf8 c =
     (if c < 128 then Inr [c]
      else if c < 2048 then Inr [192 + c div 64, 128 + c mod 64]
      else if 55296 \<le> c \<and> c \<le> 57343 then Inl UnicodeEncodeError
      else if c < 65536 then
        Inr [224 + c div 4096, 128 + (c div 64) mod 64, 128 + c mod 64]
      else if c < 1114112 then
        Inr [240 + c div 262144, 128 + (c div 4096) mod 64,
             128 + (c div 64) mod 64, 128 + c mod 64]
      else Inl UnicodeEncodeError)"

definition hex_upper :: "nat \<Rightarrow> nat" where
  "hex_upper d = (if d < 10 then 48 + d else 55 + d)"

text \<open>\<open>f"%{byte:02x}"\<close> for every byte, joined and upper-cased.\<close>

definition percent_encode :: "nat \<Rightarrow> ustr result" where
  "percent_encode c =
     bind (utf8 c)
       (\<lambda>bs. Inr (concat (map (\<lambda>b. [37, hex_upper (b div 16), hex_upper (b mod 16)]) bs)))"

text \<open>
  \<open>len(PERCENT_ENCODED_REGEX.findall(string))\<close>: the number of non-overlapping
  matches of \<open>%[A-Fa-f0-9]{2}\<close>, scanning from the left.
\<close>

fun findall_count :: "ustr \<Rightarrow> nat" where
  "findall_count (a # b # c # cs) =
     (if a = 37 \<and> is_hex b \<and> is_hex c then Suc (findall_count cs)
      else findall_count (b # c # cs))"
| "findall_count cs = 0"

definition count_percent :: "ustr \<Rightarrow> nat" where
  "count_percent s = length (filter (\<lambda>c. c = 37) s)"

definition NON_ESCAPED_CHARS :: "ustr \<Rightarrow> ustr \<Rightarrow> ustr" where
  "NON_ESCAPED_CHARS string safe =
     (if count_percent string = findall_count string
      then UNRESERVED_CHARACTERS @ safe @ [37]
      else UNRESERVED_CHARACTERS @ safe)"

fun quote_chars :: "ustr \<Rightarrow> ustr \<Rightarrow> ustr result" where
  "quote_chars ok [] = Inr []"
| "quote_chars ok (c # cs) =
     bind (if c \<in> set ok then Inr [c] else percent_encode c)
       (\<lambda>x. bind (quote_chars ok cs) (\<lambda>xs. Inr (x @ xs)))"

definition quote :: "ustr \<Rightarrow> ustr \<Rightarrow> ustr result" where
  "quote string safe = quote_chars (NON_ESCAPED_CHARS string safe) string"

subsection \<open>Dot segments\<close>

text \<open>\<open>str.split(sep)\<close> for a one-character separator, and \<open>sep.join(parts)\<close>.\<close>

fun split_on :: "nat \<Rightarrow> ustr \<Rightarrow> ustr list" where
  "split_on d [] = [[]]"
| "split_on d (c # cs) =
     (if c = d then [] # split_on d cs
      else (case split_on d cs of [] \<Rightarrow> [[c]] | x # xs \<Rightarrow> (c # x) # xs))"

fun join_with :: "nat \<Rightarrow> ustr list \<Rightarrow> ustr" where
  "join_with d [] = []"
| "join_with d [x] = x"
| "join_with d (x # y # ys) = x @ d # join_with d (y # ys)"

text \<open>One turn of the loop of \<open>normalize_path\<close> over the list \<open>output\<close>.\<close>

definition dot_step :: "ustr list \<Rightarrow> ustr \<Rightarrow> ustr list" where
  "dot_step output component =
     (if component = u ''.'' then output
      else if component = u ''..'' then
        (if output \<noteq> [] \<and> output \<noteq> [[]] then butlast output else output)
      else output @ [component])"

definition normalize_path :: "ustr \<Rightarrow> ustr" where
  "normalize_path path = join_with 47 (foldl dot_step [] (split_on 47 path))"

subsection \<open>The standard library and the \<open>idna\<close> package\<close>

text \<open>
  The module calls \<open>ipaddress.IPv4Address\<close>, \<open>ipaddress.IPv6Address\<close>,
  \<open>idna.encode\<close>, \<open>str.lower\<close> and \<open>int\<close>. What all versions of
  them agree on and fits in a few lines is computed below; the rest is a parameter of
  the model, a record of functions:
  \<^item> \<open>ipv4_zero_octet\<close>: whether \<open>IPv4Address\<close> accepts this octet, which has a
    leading zero (the answer changed between Python versions);
  \<^item> \<open>ipv6_address\<close>: whether \<open>IPv6Address\<close> accepts this string;
  \<^item> \<open>idna_encode\<close>: the bytes \<open>idna.encode\<close> returns, \<open>None\<close> for an
    \<open>IDNAError\<close>;
  \<^item> \<open>unicode_lower\<close>: \<open>str.lower\<close> on a string with a non-ASCII character;
  \<^item> \<open>int_other\<close>: \<open>int\<close> on a string that is not a plain run of ASCII digits
    (signs, blanks, underscores, other decimal digits), \<open>None\<close> for a
    \<open>ValueError\<close>.
\<close>

record stdlib =
  ipv4_zero_octet :: "ustr \<Rightarrow> bool"
  ipv6_address :: "ustr \<Rightarrow> bool"
  idna_encode :: "ustr \<Rightarrow> nat list option"
  unicode_lower :: "ustr \<Rightarrow> ustr"
  int_other :: "ustr \<Rightarrow> int option"

definition ascii_lower :: "nat \<Rightarrow> nat" where
  "ascii_lower c = (if 65 \<le> c \<and> c \<le> 90 then c + 32 else c)"

definition py_lower :: "stdlib \<Rightarrow> ustr \<Rightarrow> ustr" where
  "py_lower lib s =
     (if list_all (\<lambda>c. c < 128) s then map ascii_lower s else unicode_lower lib s)"

definition dec_value :: "ustr \<Rightarrow> nat" where
  "dec_value s = foldl (\<lambda>a c. 10 * a + (c - 48)) 0 s"

text \<open>
  \<open>int(port)\<close>: a non-empty run of at most 4300 ASCII digits has its decimal value
  on every version; every other string is the library's.
\<close>

definition py_int :: "stdlib \<Rightarrow> ustr \<Rightarrow> int option" where
  "py_int lib s =
     (if s \<noteq> [] \<and> list_all is_digit s \<and> length s \<le> 4300 then Some (int (dec_value s))
      else int_other lib s)"

text \<open>\<open>str(n)\<close> of an integer, as the f-string \<open>f":{self.port}"\<close> renders it.\<close>

fun digits_of :: "nat \<Rightarrow> ustr" where
  "digits_of n = (if n < 10 then [48 + n] else digits_of (n div 10) @ [48 + n mod 10])"

declare digits_of.simps [simp del]

definition py_str_int :: "int \<Rightarrow> ustr" where
  "py_str_int i = (if i < 0 then 45 # digits_of (nat (- i)) else digits_of (nat i))"

text \<open>
  \<open>ipaddress.IPv4Address(host)\<close>: exactly four octets between dots, each one to
  three ASCII digits, at most 255, and without a leading zero unless the version
  tolerates it.
\<close>

definition parse_octet :: "stdlib \<Rightarrow> ustr \<Rightarrow> bool" where
  "parse_octet lib octet =
     (octet \<noteq> [] \<and> list_all is_digit octet \<and> length octet \<le> 3 \<and>
      (octet = [48] \<or> hd octet \<noteq> 48 \<or> ipv4_zero_octet lib octet) \<and>
      dec_value octet \<le> 255)"

definition IPv4Address :: "stdlib \<Rightarrow> ustr \<Rightarrow> bool" where
  "IPv4Address lib s =
     (length (split_on 46 s) = 4 \<and> list_all (parse_octet lib) (split_on 46 s))"

section \<open>The grammar splitter\<close>

subsection \<open>\<open>URL_REGEX.match(url).groupdict()\<close>\<close>

text \<open>
  Every group of \<open>URL_REGEX\<close> is a greedy run of a character class that excludes
  the delimiter after it, and all that follows a group can match the empty string, so
  the backtracking matcher takes, at each optional group, the longest run if the
  delimiter is there and skips the group otherwise. Each function returns the group
  (\<open>None\<close> when it does not take part) and the rest of the input.
\<close>

definition match_scheme :: "ustr \<Rightarrow> ustr option \<times> ustr" where
  "match_scheme s =
     (case s of
        [] \<Rightarrow> (None, s)
      | c # cs \<Rightarrow>
          if is_alpha c then
            (case dropWhile is_scheme_char cs of
               [] \<Rightarrow> (None, s)
             | d # rest \<Rightarrow>
                 if d = 58 then (Some (c # takeWhile is_scheme_char cs), rest) else (None, s))
          else (None, s))"

definition is_authority_char :: "nat \<Rightarrow> bool" where
  "is_authority_char c = (c \<noteq> 47 \<and> c \<noteq> 63 \<and> c \<noteq> 35)"

definition is_path_char :: "nat \<Rightarrow> bool" where
  "is_path_char c = (c \<noteq> 63 \<and> c \<noteq> 35)"

definition match_authority :: "ustr \<Rightarrow> ustr option \<times> ustr" where
  "match_authority s =
     (case s of
        a # b # cs \<Rightarrow>
          if a = 47 \<and> b = 47
          then (Some (takeWhile is_authority_char cs), dropWhile is_authority_char cs)
          else (None, s)
      | _ \<Rightarrow> (None, s))"

definition match_query :: "ustr \<Rightarrow> ustr option \<times> ustr" where
  "match_query s =
     (case s of
        [] \<Rightarrow> (None, s)
      | c # cs \<Rightarrow>
          if c = 63 then (Some (takeWhile (\<lambda>x. x \<noteq> 35) cs), dropWhile (\<lambda>x. x \<noteq> 35) cs)
          else (None, s))"

text \<open>The fragment is \<open>.*\<close>: up to the end of the line.\<close>

definition match_fragment :: "ustr \<Rightarrow> ustr option" where
  "match_fragment s =
     (case s of
        [] \<Rightarrow> None
      | c # cs \<Rightarrow> if c = 35 then Some (takeWhile (\<lambda>x. x \<noteq> 10) cs) else None)"

record url_dict =
  g_scheme :: "ustr option"
  g_authority :: "ustr option"
  g_path :: ustr
  g_query :: "ustr option"
  g_fragment :: "ustr option"

definition URL_REGEX_match :: "ustr \<Rightarrow> url_dict" where
  "URL_REGEX_match url =
     (let (sch, r1) = match_scheme url;
          (auth, r2) = match_authority r1;
          (qry, r3) = match_query (dropWhile is_path_char r2)
      in \<lparr>g_scheme = sch, g_authority = auth, g_path = takeWhile is_path_char r2,
          g_query = qry, g_fragment = match_fragment r3\<rparr>)"

subsection \<open>\<open>AUTHORITY_REGEX.match(authority).groupdict()\<close>\<close>

text \<open>
  The userinfo is the text before the first \<open>@\<close>. The host is, when the rest starts
  with \<open>[\<close> and its first line has a \<open>]\<close>, the text up to the last \<open>]\<close> of that
  line (\<open>.*\<close> is greedy), and else the text before the first \<open>:\<close>. One \<open>:\<close> is
  skipped if it is there, and the port is the rest of the line; its group always takes
  part, with the empty string at least.
\<close>

definition match_userinfo :: "ustr \<Rightarrow> ustr option \<times> ustr" where
  "match_userinfo s =
     (case dropWhile (\<lambda>c. c \<noteq> 64) s of
        [] \<Rightarrow> (None, s)
      | a # rest \<Rightarrow> (Some (takeWhile (\<lambda>c. c \<noteq> 64) s), rest))"

definition upto_last_bracket :: "ustr \<Rightarrow> nat" where
  "upto_last_bracket line = length line - length (takeWhile (\<lambda>c. c \<noteq> 93) (rev line))"

definition match_host :: "ustr \<Rightarrow> ustr \<times> ustr" where
  "match_host s =
     (case s of
        [] \<Rightarrow> ([], [])
      | c # cs \<Rightarrow>
          if c = 91 \<and> 93 \<in> set (takeWhile (\<lambda>x. x \<noteq> 10) cs)
          then (let n = upto_last_bracket (takeWhile (\<lambda>x. x \<noteq> 10) cs)
                in (c # take n cs, drop n cs))
          else (takeWhile (\<lambda>x. x \<noteq> 58) s, dropWhile (\<lambda>x. x \<noteq> 58) s))"

definition match_port :: "ustr \<Rightarrow> ustr option" where
  "match_port s =
     (case s of
        [] \<Rightarrow> Some []
      | c # cs \<Rightarrow>
          if c = 58 then Some (takeWhile (\<lambda>x. x \<noteq> 10) cs)
          else Some (takeWhile (\<lambda>x. x \<noteq> 10) s))"

record authority_dict =
  a_userinfo :: "ustr option"
  a_host :: ustr
  a_port :: "ustr option"

definition AUTHORITY_REGEX_match :: "ustr \<Rightarrow> authority_dict" where
  "AUTHORITY_REGEX_match authority =
     (let (usr, r1) = match_userinfo authority;
          (hst, r2) = match_host r1
      in \<lparr>a_userinfo = usr, a_host = hst, a_port = match_port r2\<rparr>)"

subsection \<open>\<open>COMPONENT_REGEX[key].fullmatch(value)\<close>\<close>

definition COMPONENT_REGEX_fullmatch :: "string \<Rightarrow> ustr \<Rightarrow> bool" where
  "COMPONENT_REGEX_fullmatch key v =
     (if key = ''scheme'' then
        (case v of [] \<Rightarrow> True | c # cs \<Rightarrow> is_alpha c \<and> list_all is_scheme_char cs)
      else if key = ''authority'' then list_all is_authority_char v
      else if key = ''path'' then list_all is_path_char v
      else if key = ''query'' then list_all (\<lambda>c. c \<noteq> 35) v
      else if key = ''fragment'' then list_all (\<lambda>c. c \<noteq> 10) v
      else if key = ''userinfo'' then list_all (\<lambda>c. c \<noteq> 64) v
      else if key = ''host'' then
        ((2 \<le> length v \<and> hd v = 91 \<and> last v = 93 \<and> list_all (\<lambda>c. c \<noteq> 10) (butlast (tl v)))
         \<or> list_all (\<lambda>c. c \<noteq> 58) v)
      else if key = ''port'' then list_all (\<lambda>c. c \<noteq> 10) v
      else False)"

subsection \<open>The host-shape patterns\<close>

text \<open>
  \<open>IPv4_STYLE_HOSTNAME\<close> is \<open>^[0-9]+.[0-9]+.[0-9]+.[0-9]+$\<close>: four runs of digits
  with one character, any but a newline, between two runs. \<open>match_items\<close> decides
  whether some split of the string matches the items; \<open>$\<close> holds at the end of the
  string and before a final newline.
\<close>

datatype item = Digits | AnyChar

fun match_items :: "item list \<Rightarrow> ustr \<Rightarrow> bool" where
  "match_items [] s = (s = [] \<or> s = [10])"
| "match_items (AnyChar # its) s =
     (case s of [] \<Rightarrow> False | c # cs \<Rightarrow> c \<noteq> 10 \<and> match_items its cs)"
| "match_items (Digits # its) s =
     (case s of
        [] \<Rightarrow> False
      | c # cs \<Rightarrow> is_digit c \<and> (match_items its cs \<or> match_items (Digits # its) cs))"

definition IPv4_STYLE_HOSTNAME :: "item list" where
  "IPv4_STYLE_HOSTNAME = [Digits, AnyChar, Digits, AnyChar, Digits, AnyChar, Digits]"

text \<open>\<open>IPv6_STYLE_HOSTNAME\<close> is \<open>^\[.*\]$\<close>.\<close>

definition IPv6_STYLE_HOSTNAME_match :: "ustr \<Rightarrow> bool" where
  "IPv6_STYLE_HOSTNAME_match s =
     (let t = (if s \<noteq> [] \<and> last s = 10 then butlast s else s)
      in 2 \<le> length t \<and> hd t = 91 \<and> last t = 93 \<and> list_all (\<lambda>c. c \<noteq> 10) (butlast (tl t)))"

section \<open>The component normalizer\<close>

definition encode_host :: "stdlib \<Rightarrow> ustr \<Rightarrow> ustr result" where
  "encode_host lib host =
     (if host = [] then Inr []
      else if match_items IPv4_STYLE_HOSTNAME host then
        (if IPv4Address lib host then Inr host else Inl InvalidURL)
      else if IPv6_STYLE_HOSTNAME_match host then
        (if ipv6_address lib (butlast (tl host)) then Inr (butlast (tl host))
         else Inl InvalidURL)
      else if list_all (\<lambda>c. c \<le> 127) host then quote (py_lower lib host) SUB_DELIMS
      else
        (case idna_encode lib (py_lower lib host) of
           None \<Rightarrow> Inl InvalidURL
         | Some bs \<Rightarrow> if list_all (\<lambda>b. b < 128) bs then Inr bs else Inl UnicodeDecodeError))"

definition default_port :: "ustr \<Rightarrow> int option" where
  "default_port scheme =
     map_of [(u ''ftp'', 21), (u ''http'', 80), (u ''https'', 443), (u ''ws'', 80),
             (u ''wss'', 443)] scheme"

definition normalize_port :: "stdlib \<Rightarrow> ustr option \<Rightarrow> ustr \<Rightarrow> int option result" where
  "normalize_port lib port scheme =
     (case port of
        None \<Rightarrow> Inr None
      | Some p \<Rightarrow>
          if p = [] then Inr None
          else
            (case py_int lib p of
               None \<Rightarrow> Inl InvalidURL
             | Some port_as_int \<Rightarrow>
                 if Some port_as_int = default_port scheme then Inr None
                 else Inr (Some port_as_int)))"

definition validate_absolute_path :: "ustr \<Rightarrow> unit result" where
  "validate_absolute_path path =
     (if path \<noteq> [] \<and> \<not> (hd path = 47) then Inl InvalidURL else Inr ())"

section \<open>ParseResult\<close>

record ParseResult =
  scheme :: ustr
  userinfo :: ustr
  host :: ustr
  port :: "int option"
  path :: ustr
  query :: "ustr option"
  fragment :: "ustr option"

definition netloc :: "ParseResult \<Rightarrow> ustr" where
  "netloc self =
     (if 58 \<in> set (host self) then [91] @ host self @ [93] else host self) @
     (case port self of None \<Rightarrow> [] | Some n \<Rightarrow> 58 # py_str_int n)"

definition authority :: "ParseResult \<Rightarrow> ustr" where
  "authority self =
     (if userinfo self \<noteq> [] then userinfo self @ [64] else []) @
     (if 58 \<in> set (host self) then [91] @ host self @ [93] else host self) @
     (case port self of None \<Rightarrow> [] | Some n \<Rightarrow> 58 # py_str_int n)"

text \<open>\<open>ParseResult.__str__\<close>, the canonical string form.\<close>

definition to_str :: "ParseResult \<Rightarrow> ustr" where
  "to_str self =
     (if scheme self \<noteq> [] then scheme self @ [58] else []) @
     (if authority self \<noteq> [] then [47, 47] @ authority self else []) @
     path self @
     (case query self of None \<Rightarrow> [] | Some q \<Rightarrow> 63 # q) @
     (case fragment self of None \<Rightarrow> [] | Some f \<Rightarrow> 35 # f)"

section \<open>urlparse\<close>

subsection \<open>The keyword arguments\<close>

text \<open>
  \<open>**kwargs\<close> is a dictionary in insertion order, from a key to an
  \<open>Optional[str]\<close>: an association list, where \<open>AList.update\<close> keeps the place of
  a key that is there and appends a new one, as a Python \<open>dict\<close> does. The declared
  type of the values has no integer, so the coercion of an integer \<open>port\<close> (lines
  166 to 168) keeps every value as it is.
\<close>

type_synonym kwargs = "(string \<times> ustr option) list"

definition has_key :: "kwargs \<Rightarrow> string \<Rightarrow> bool" where
  "has_key kw k = (map_of kw k \<noteq> None)"

text \<open>\<open>kwargs.get(k, default)\<close>, and \<open>value or ""\<close>.\<close>

definition dict_get :: "kwargs \<Rightarrow> string \<Rightarrow> ustr option \<Rightarrow> ustr option" where
  "dict_get kw k d = (case map_of kw k of None \<Rightarrow> d | Some v \<Rightarrow> v)"

definition or_empty :: "ustr option \<Rightarrow> ustr" where
  "or_empty v = (case v of None \<Rightarrow> [] | Some s \<Rightarrow> s)"

text \<open>\<open>s.partition(sep)\<close>: the head, whether the separator was found, the tail.\<close>

definition str_partition :: "nat \<Rightarrow> ustr \<Rightarrow> ustr \<times> bool \<times> ustr" where
  "str_partition d s =
     (case dropWhile (\<lambda>c. c \<noteq> d) s of
        [] \<Rightarrow> (s, False, [])
      | a # rest \<Rightarrow> (takeWhile (\<lambda>c. c \<noteq> d) s, True, rest))"

text \<open>Replace \<open>netloc\<close> with \<open>host\<close> and \<open>port\<close>.\<close>

definition netloc_step :: "kwargs \<Rightarrow> kwargs" where
  "netloc_step kw =
     (if has_key kw ''netloc'' then
        (case str_partition 58 (or_empty (dict_get kw ''netloc'' None)) of
           (h, sep, p) \<Rightarrow>
             AList.update ''port'' (Some p)
               (AList.update ''host'' (Some h) (AList.delete ''netloc'' kw)))
      else kw)"

text \<open>
  Replace \<open>username\<close> and \<open>password\<close> with \<open>userinfo\<close>; both are quoted with the
  default safe set \<open>"/"\<close>.
\<close>

definition userinfo_step :: "kwargs \<Rightarrow> kwargs result" where
  "userinfo_step kw =
     (if has_key kw ''username'' \<or> has_key kw ''password'' then
        bind (quote (or_empty (dict_get kw ''username'' None)) [47]) (\<lambda>username.
        bind (quote (or_empty (dict_get kw ''password'' None)) [47]) (\<lambda>password.
          Inr (AList.update ''userinfo''
                 (Some (if password \<noteq> [] then username @ [58] @ password else username))
                 (AList.delete ''password'' (AList.delete ''username'' kw)))))
      else Inr kw)"

text \<open>Replace \<open>full_path\<close> with \<open>path\<close> and \<open>query\<close>.\<close>

definition full_path_step :: "kwargs \<Rightarrow> kwargs" where
  "full_path_step kw =
     (if has_key kw ''full_path'' then
        (case str_partition 63 (or_empty (dict_get kw ''full_path'' None)) of
           (p, sep, q) \<Rightarrow>
             AList.update ''query'' (if sep then Some q else None)
               (AList.update ''path'' (Some p) (AList.delete ''full_path'' kw)))
      else kw)"

text \<open>Wrap a \<open>host\<close> with a colon in brackets, unless it has them.\<close>

definition host_step :: "kwargs \<Rightarrow> kwargs" where
  "host_step kw =
     (if has_key kw ''host'' then
        (let h = or_empty (dict_get kw ''host'' None)
         in if 58 \<in> set h \<and> \<not> (h \<noteq> [] \<and> hd h = 91 \<and> last h = 93)
            then AList.update ''host'' (Some ([91] @ h @ [93])) kw
            else kw)
      else kw)"

text \<open>The loop over \<open>kwargs.items()\<close>: the first failure, in the order of the keys.\<close>

fun validate_kwargs :: "kwargs \<Rightarrow> unit result" where
  "validate_kwargs [] = Inr ()"
| "validate_kwargs ((key, v) # rest) =
     (if key \<notin> set [''scheme'', ''authority'', ''path'', ''query'', ''fragment'',
                     ''userinfo'', ''host'', ''port'']
      then Inl TypeError
      else
        (case v of
           None \<Rightarrow> validate_kwargs rest
         | Some x \<Rightarrow>
             if length x > MAX_URL_LENGTH then Inl InvalidURL
             else if list_ex is_ascii_control x then Inl InvalidURL
             else if \<not> COMPONENT_REGEX_fullmatch key x then Inl InvalidURL
             else validate_kwargs rest))"

text \<open>Lines 162 to 223: the special keys, then the validation.\<close>

definition prepare_kwargs :: "kwargs \<Rightarrow> kwargs result" where
  "prepare_kwargs kw =
     bind (userinfo_step (netloc_step kw)) (\<lambda>kw1.
       bind (validate_kwargs (host_step (full_path_step kw1)))
         (\<lambda>ok. Inr (host_step (full_path_step kw1))))"

subsection \<open>Merging the groups and the keyword arguments\<close>

record components =
  c_scheme :: ustr
  c_userinfo :: ustr
  c_host :: ustr
  c_port :: "ustr option"
  c_path :: ustr
  c_query :: "ustr option"
  c_fragment :: "ustr option"

text \<open>Lines 225 to 250: a keyword argument, also \<open>None\<close>, wins over the group.\<close>

definition merge_components :: "ustr \<Rightarrow> kwargs \<Rightarrow> components" where
  "merge_components url kw =
     (let url_dict = URL_REGEX_match url;
          authority_dict =
            AUTHORITY_REGEX_match
              (or_empty (dict_get kw ''authority'' (g_authority url_dict)))
      in \<lparr>c_scheme = or_empty (dict_get kw ''scheme'' (g_scheme url_dict)),
          c_userinfo = or_empty (dict_get kw ''userinfo'' (a_userinfo authority_dict)),
          c_host = or_empty (dict_get kw ''host'' (Some (a_host authority_dict))),
          c_port = dict_get kw ''port'' (a_port authority_dict),
          c_path = or_empty (dict_get kw ''path'' (Some (g_path url_dict))),
          c_query = dict_get kw ''query'' (g_query url_dict),
          c_fragment = dict_get kw ''fragment'' (g_fragment url_dict)\<rparr>)"

subsection \<open>Normalizing and validating each component\<close>

definition quote_opt :: "ustr option \<Rightarrow> ustr \<Rightarrow> ustr option result" where
  "quote_opt v safe =
     (case v of None \<Rightarrow> Inr None | Some s \<Rightarrow> bind (quote s safe) (\<lambda>q. Inr (Some q)))"

text \<open>Lines 259 to 261: the path of a URL with an authority.\<close>

definition authority_path :: "components \<Rightarrow> ustr result" where
  "authority_path c =
     (if c_userinfo c \<noteq> [] \<or> c_host c \<noteq> [] \<or> or_empty (c_port c) \<noteq> []
      then bind (validate_absolute_path (c_path c)) (\<lambda>ok. Inr (normalize_path (c_path c)))
      else Inr (c_path c))"

text \<open>Lines 252 to 280, in the order the source evaluates them.\<close>

definition normalize_components :: "stdlib \<Rightarrow> components \<Rightarrow> ParseResult result" where
  "normalize_components lib c =
     bind (quote (c_userinfo c) (SUB_DELIMS @ u '':'')) (\<lambda>parsed_userinfo.
     bind (encode_host lib (c_host c)) (\<lambda>parsed_host.
     bind (normalize_port lib (c_port c) (c_scheme c)) (\<lambda>parsed_port.
     bind (authority_path c) (\<lambda>path1.
     bind (quote path1 (SUB_DELIMS @ u '':@/'')) (\<lambda>parsed_path.
     bind (quote_opt (c_query c) (SUB_DELIMS @ u ''/?'')) (\<lambda>parsed_query.
     bind (quote_opt (c_fragment c) (SUB_DELIMS @ u ''/?'')) (\<lambda>parsed_fragment.
       Inr \<lparr>scheme = py_lower lib (c_scheme c), userinfo = parsed_userinfo,
            host = parsed_host, port = parsed_port, path = parsed_path,
            query = parsed_query, fragment = parsed_fragment\<rparr>)))))))"

definition urlparse :: "stdlib \<Rightarrow> ustr \<Rightarrow> kwargs \<Rightarrow> ParseResult result" where
  "urlparse lib url kwargs =
     (if length url > MAX_URL_LENGTH then Inl InvalidURL
      else if list_ex is_ascii_control url then Inl InvalidURL
      else bind (prepare_kwargs kwargs)
             (\<lambda>kw. normalize_components lib (merge_components url kw)))"

subsection \<open>\<open>ParseResult.copy_with\<close>\<close>



text \<open>
  A library that answers no to every question it is asked: the strings with ASCII
  digits, letters and dots of the examples below never reach it.
\<close>

definition strict_lib :: stdlib where
  "strict_lib =
     \<lparr>ipv4_zero_octet = (\<lambda>s. False), ipv6_address = (\<lambda>s. False),
      idna_encode = (\<lambda>s. None), unicode_lower = (\<lambda>s. s), int_other = (\<lambda>s. None)\<rparr>"

text \<open>
  A library whose \<open>IPv6Address\<close> accepts the address \<open>fe80::1\<close> followed by
  \<open>%\<close> and a zone identifier, which is not empty and has no \<open>%\<close>, whatever its
  other characters: \<open>ipaddress\<close> has accepted a zone identifier so, without a look
  at its characters, since Python 3.9.
\<close>

definition zone_lib :: stdlib where
  "zone_lib =
     strict_lib\<lparr>ipv6_address :=
       (\<lambda>s. case str_partition 37 s of
              (addr, sep, scope_id) \<Rightarrow>
                addr = u ''fe80::1'' \<and> sep \<and> scope_id \<noteq> [] \<and> 37 \<notin> set scope_id)\<rparr>"

section \<open>Predicates of the specification\<close>

text \<open>
  A string is fully percent-encoded when every occurrence of \<open>%\<close> in it is
  immediately followed by two hex digits.
\<close>

fun every_percent_escaped :: "ustr \<Rightarrow> bool" where
  "every_percent_escaped [] = True"
| "every_percent_escaped (c # cs) =
     ((c = 37 \<longrightarrow> (case cs of b # d # rest \<Rightarrow> is_hex b \<and> is_hex d | _ \<Rightarrow> False)) \<and>
      every_percent_escaped cs)"

section \<open>Verified properties\<close>

subsection \<open>Evaluation\<close>

text \<open>The definitions the simplifier unfolds to run the model on a concrete input.\<close>

lemmas ev =
  quote_def NON_ESCAPED_CHARS_def count_percent_def u_def UNRESERVED_CHARACTERS_def
  SUB_DELIMS_def bind_def URL_REGEX_match_def match_scheme_def match_authority_def
  match_query_def match_fragment_def is_alpha_def is_scheme_char_def is_digit_def
  is_path_char_def is_authority_char_def AUTHORITY_REGEX_match_def match_userinfo_def
  match_host_def match_port_def upto_last_bracket_def urlparse_def prepare_kwargs_def
  userinfo_step_def netloc_step_def host_step_def full_path_step_def has_key_def
  dict_get_def or_empty_def merge_components_def normalize_components_def
  authority_path_def quote_opt_def encode_host_def normalize_port_def
  validate_absolute_path_def normalize_path_def dot_step_def py_lower_def ascii_lower_def
  py_int_def dec_value_def default_port_def IPv4_STYLE_HOSTNAME_def
  IPv6_STYLE_HOSTNAME_match_def MAX_URL_LENGTH_def is_ascii_control_def percent_encode_def
  utf8_def hex_upper_def is_hex_def IPv4Address_def parse_octet_def str_partition_def
  COMPONENT_REGEX_fullmatch_def

subsection \<open>Dot segments\<close>

lemma dot_step_keeps_root:
  "out \<noteq> [] \<Longrightarrow> hd out = [] \<Longrightarrow> dot_step out c \<noteq> [] \<and> hd (dot_step out c) = []"
  by (cases out) (auto simp: dot_step_def)

lemma foldl_dot_step_keeps_root:
  "out \<noteq> [] \<Longrightarrow> hd out = [] \<Longrightarrow>
   foldl dot_step out cs \<noteq> [] \<and> hd (foldl dot_step out cs) = []"
proof (induction cs arbitrary: out)
  case Nil
  then show ?case by simp
next
  case (Cons c cs)
  from dot_step_keeps_root [OF Cons.prems] Cons.IH show ?case by simp
qed

lemma dot_step_empty: "dot_step [] [] = [[]]"
  by (simp add: dot_step_def u_def)

text \<open>
  C2, as the claim states it, fails: \<open>normalize_path\<close> maps \<open>"/.."\<close> to the empty
  string, not to \<open>"/"\<close>. The retained list is then \<open>[""]\<close>, and joining a single
  empty segment gives the empty path.
\<close>

theorem C2_counterexample: "normalize_path (u ''/..'') \<noteq> u ''/''"
  by (simp add: normalize_path_def dot_step_def u_def)

text \<open>
  C2, amended: \<open>normalize_path\<close> maps \<open>"/path/./to/somewhere/.."\<close> to
  \<open>"/path/to"\<close> and \<open>"/.."\<close> to the empty string. A \<open>..\<close> met when the retained
  list is empty or holds only the empty marker is dropped and leaves the list as it
  is, and for every path that starts with \<open>/\<close> the retained list keeps the empty
  marker as its first segment: popping never descends below the root.
\<close>

theorem C2_dot_segments:
  "normalize_path (u ''/path/./to/somewhere/..'') = u ''/path/to'' \<and>
   normalize_path (u ''/..'') = [] \<and>
   dot_step [] (u ''..'') = [] \<and> dot_step [[]] (u ''..'') = [[]] \<and>
   (p \<noteq> [] \<and> hd p = 47 \<longrightarrow>
      foldl dot_step [] (split_on 47 p) \<noteq> [] \<and>
      hd (foldl dot_step [] (split_on 47 p)) = [])"
proof -
  have a: "normalize_path (u ''/path/./to/somewhere/..'') = u ''/path/to''"
    by (simp add: normalize_path_def dot_step_def u_def)
  have b: "normalize_path (u ''/..'') = []"
    by (simp add: normalize_path_def dot_step_def u_def)
  have c: "dot_step [] (u ''..'') = [] \<and> dot_step [[]] (u ''..'') = [[]]"
    by (simp add: dot_step_def u_def)
  have d: "foldl dot_step [] (split_on 47 p) \<noteq> [] \<and>
      hd (foldl dot_step [] (split_on 47 p)) = []" if "p \<noteq> []" "hd p = 47"
  proof -
    from that obtain cs where p: "p = 47 # cs" by (cases p) auto
    have "foldl dot_step [] (split_on 47 p) = foldl dot_step [[]] (split_on 47 cs)"
      by (simp add: p dot_step_empty)
    then show ?thesis using foldl_dot_step_keeps_root [of "[[]]" "split_on 47 cs"] by simp
  qed
  from a b c d show ?thesis by blast
qed

theorem C2_dot_segments_witness:
  "u ''/a/../..'' \<noteq> [] \<and> hd (u ''/a/../..'') = 47 \<and>
   foldl dot_step [] (split_on 47 (u ''/a/../..'')) = [[]] \<and>
   normalize_path (u ''/..'') = []"
  using C2_dot_segments [of "u ''/a/../..''"]
  by (simp add: dot_step_def u_def)

subsection \<open>Results as values\<close>

lemma bind_Inr_iff: "bind m f = Inr y \<longleftrightarrow> (\<exists>x. m = Inr x \<and> f x = Inr y)"
  by (cases m) (simp_all add: bind_def)

lemma bind_Inl_left: "m = Inl e \<Longrightarrow> bind m f = Inl e"
  by (simp add: bind_def)

lemma urlparse_InrD:
  "urlparse lib url kw = Inr r \<Longrightarrow>
   length url \<le> MAX_URL_LENGTH \<and> \<not> list_ex is_ascii_control url \<and>
   (\<exists>kw'. prepare_kwargs kw = Inr kw' \<and>
          normalize_components lib (merge_components url kw') = Inr r)"
  by (auto simp: urlparse_def bind_Inr_iff split: if_splits)

lemma normalize_components_InrD:
  "normalize_components lib c = Inr r \<Longrightarrow>
   quote (c_userinfo c) (SUB_DELIMS @ u '':'') = Inr (userinfo r) \<and>
   encode_host lib (c_host c) = Inr (host r) \<and>
   normalize_port lib (c_port c) (c_scheme c) = Inr (port r) \<and>
   (\<exists>p1. authority_path c = Inr p1 \<and> quote p1 (SUB_DELIMS @ u '':@/'') = Inr (path r)) \<and>
   quote_opt (c_query c) (SUB_DELIMS @ u ''/?'') = Inr (query r) \<and>
   quote_opt (c_fragment c) (SUB_DELIMS @ u ''/?'') = Inr (fragment r) \<and>
   scheme r = py_lower lib (c_scheme c)"
  by (auto simp: normalize_components_def bind_Inr_iff)

subsection \<open>Query and fragment: absent, empty, non-empty\<close>

text \<open>
  C6: parsing \<open>"http://example.com"\<close> gives no query and no fragment; with a
  trailing \<open>?\<close> the query is present and empty; with a trailing \<open>#\<close> the
  fragment is present and empty; \<open>"http://example.com?x=1#y"\<close> gives the query
  \<open>x=1\<close> and the fragment \<open>y\<close>. The canonical string of a result with an absent
  query (fragment) differs from that of the same result with an empty one.
\<close>

theorem C6_tri_state:
  "urlparse lib (u ''http://example.com'') [] =
     Inr \<lparr>scheme = u ''http'', userinfo = [], host = u ''example.com'', port = None,
          path = [], query = None, fragment = None\<rparr> \<and>
   urlparse lib (u ''http://example.com?'') [] =
     Inr \<lparr>scheme = u ''http'', userinfo = [], host = u ''example.com'', port = None,
          path = [], query = Some [], fragment = None\<rparr> \<and>
   urlparse lib (u ''http://example.com#'') [] =
     Inr \<lparr>scheme = u ''http'', userinfo = [], host = u ''example.com'', port = None,
          path = [], query = None, fragment = Some []\<rparr> \<and>
   urlparse lib (u ''http://example.com?x=1#y'') [] =
     Inr \<lparr>scheme = u ''http'', userinfo = [], host = u ''example.com'', port = None,
          path = [], query = Some (u ''x=1''), fragment = Some (u ''y'')\<rparr> \<and>
   to_str (r\<lparr>query := None\<rparr>) \<noteq> to_str (r\<lparr>query := Some []\<rparr>) \<and>
   to_str (r\<lparr>fragment := None\<rparr>) \<noteq> to_str (r\<lparr>fragment := Some []\<rparr>)"
proof -
  have a: "urlparse lib (u ''http://example.com'') [] =
     Inr \<lparr>scheme = u ''http'', userinfo = [], host = u ''example.com'', port = None,
          path = [], query = None, fragment = None\<rparr>"
    by (simp add: ev)
  have b: "urlparse lib (u ''http://example.com?'') [] =
     Inr \<lparr>scheme = u ''http'', userinfo = [], host = u ''example.com'', port = None,
          path = [], query = Some [], fragment = None\<rparr>"
    by (simp add: ev)
  have c: "urlparse lib (u ''http://example.com#'') [] =
     Inr \<lparr>scheme = u ''http'', userinfo = [], host = u ''example.com'', port = None,
          path = [], query = None, fragment = Some []\<rparr>"
    by (simp add: ev)
  have d: "urlparse lib (u ''http://example.com?x=1#y'') [] =
     Inr \<lparr>scheme = u ''http'', userinfo = [], host = u ''example.com'', port = None,
          path = [], query = Some (u ''x=1''), fragment = Some (u ''y'')\<rparr>"
    by (simp add: ev)
  have e: "to_str (r\<lparr>query := None\<rparr>) \<noteq> to_str (r\<lparr>query := Some []\<rparr>)"
    by (simp add: to_str_def authority_def)
  have f: "to_str (r\<lparr>fragment := None\<rparr>) \<noteq> to_str (r\<lparr>fragment := Some []\<rparr>)"
    by (simp add: to_str_def authority_def)
  from a b c d e f show ?thesis by blast
qed

theorem C6_tri_state_witness:
  "urlparse strict_lib (u ''http://example.com?'') [] =
     Inr \<lparr>scheme = u ''http'', userinfo = [], host = u ''example.com'', port = None,
          path = [], query = Some [], fragment = None\<rparr> \<and>
   to_str (\<lparr>scheme = u ''http'', userinfo = [], host = u ''example.com'', port = None,
            path = [], query = Some [], fragment = None\<rparr>\<lparr>query := None\<rparr>) \<noteq>
   to_str (\<lparr>scheme = u ''http'', userinfo = [], host = u ''example.com'', port = None,
            path = [], query = Some [], fragment = None\<rparr>\<lparr>query := Some []\<rparr>)"
  using C6_tri_state [of strict_lib
      "\<lparr>scheme = u ''http'', userinfo = [], host = u ''example.com'', port = None,
        path = [], query = Some [], fragment = None\<rparr>"]
  by blast

subsection \<open>The dispatch on the shape of the host\<close>

text \<open>
  C8 at the host \<open>"1234567"\<close>, which is all ASCII, has no bracket and does not
  split into four parts at its dots: the pattern \<open>IPv4_STYLE_HOSTNAME\<close>, whose dots
  are not escaped, matches it, and \<open>encode_host\<close> raises \<open>InvalidURL\<close> where the
  handling of a registered name would return \<open>"1234567"\<close>. The hosts \<open>"12345"\<close>
  and \<open>"1.2.3.4.5"\<close>, which the pattern does not match, are registered names.
\<close>

theorem C8_ipv4_dispatch:
  "encode_host lib (u ''1234567'') = Inl InvalidURL \<and>
   urlparse lib (u ''http://1234567/'') [] = Inl InvalidURL \<and>
   length (split_on 46 (u ''1234567'')) \<noteq> 4 \<and>
   quote (py_lower lib (u ''1234567'')) SUB_DELIMS = Inr (u ''1234567'') \<and>
   encode_host lib (u ''12345'') = Inr (u ''12345'') \<and>
   encode_host lib (u ''1.2.3.4.5'') = Inr (u ''1.2.3.4.5'')"
proof -
  have a: "encode_host lib (u ''1234567'') = Inl InvalidURL"
    by (simp add: ev)
  have b: "urlparse lib (u ''http://1234567/'') [] = Inl InvalidURL"
    by (simp add: ev)
  have c: "length (split_on 46 (u ''1234567'')) \<noteq> 4"
    by (simp add: ev)
  have d: "quote (py_lower lib (u ''1234567'')) SUB_DELIMS = Inr (u ''1234567'')"
    by (simp add: ev)
  have e: "encode_host lib (u ''12345'') = Inr (u ''12345'')"
    by (simp add: ev)
  have f: "encode_host lib (u ''1.2.3.4.5'') = Inr (u ''1.2.3.4.5'')"
    by (simp add: ev)
  from a b c d e f show ?thesis by blast
qed

theorem C8_ipv4_dispatch_witness:
  "encode_host strict_lib (u ''1234567'') = Inl InvalidURL \<and>
   encode_host strict_lib (u ''12345'') = Inr (u ''12345'')"
  using C8_ipv4_dispatch [of strict_lib] by blast

subsection \<open>The port\<close>





subsection \<open>Keyword arguments that are not components\<close>

text \<open>
  C9, as the claim states it, fails: with the overrides \<open>path="?"\<close> and
  \<open>foo=None\<close>, in this order, the key \<open>foo\<close> is not recognized and the failure
  is \<open>InvalidURL\<close>, raised for \<open>path\<close>, which the loop checks first.
\<close>

theorem C9_counterexample:
  "urlparse strict_lib [] [(''path'', Some (u ''?'')), (''foo'', None)] = Inl InvalidURL"
  by (simp add: ev)

lemma has_key_update: "has_key (AList.update k' v kw) k = (k = k' \<or> has_key kw k)"
  by (simp add: has_key_def update_conv')

lemma has_key_delete: "has_key (AList.delete k' kw) k = (k \<noteq> k' \<and> has_key kw k)"
  by (simp add: has_key_def delete_conv')

lemma has_key_netloc_step:
  "has_key kw k \<Longrightarrow> k \<noteq> ''netloc'' \<Longrightarrow> has_key (netloc_step kw) k"
  by (auto simp: netloc_step_def has_key_update has_key_delete split: prod.splits)

lemma has_key_full_path_step:
  "has_key kw k \<Longrightarrow> k \<noteq> ''full_path'' \<Longrightarrow> has_key (full_path_step kw) k"
  by (auto simp: full_path_step_def has_key_update has_key_delete split: prod.splits)

lemma has_key_host_step: "has_key kw k \<Longrightarrow> has_key (host_step kw) k"
  by (auto simp: host_step_def has_key_update Let_def)

lemma has_key_userinfo_step:
  "userinfo_step kw = Inr kw1 \<Longrightarrow> has_key kw k \<Longrightarrow> k \<noteq> ''username'' \<Longrightarrow> k \<noteq> ''password'' \<Longrightarrow>
   has_key kw1 k"
  by (auto simp: userinfo_step_def bind_Inr_iff has_key_update has_key_delete split: if_splits)

lemma validate_kwargs_bad_key:
  "has_key kw k \<Longrightarrow>
   k \<notin> set [''scheme'', ''authority'', ''path'', ''query'', ''fragment'', ''userinfo'',
             ''host'', ''port''] \<Longrightarrow>
   \<exists>e. validate_kwargs kw = Inl e"
proof (induction kw)
  case Nil
  then show ?case by (simp add: has_key_def)
next
  case (Cons a kw)
  obtain key v where a: "a = (key, v)" by (cases a)
  show ?case
  proof (cases "key = k")
    case True
    with Cons.prems a show ?thesis by simp
  next
    case False
    with Cons.prems a have "has_key kw k" by (simp add: has_key_def)
    with Cons have "\<exists>e. validate_kwargs kw = Inl e" by blast
    with a show ?thesis by (auto split: option.splits)
  qed
qed

lemma sum_cases_result: "(\<exists>e. m = Inl e) \<or> (\<exists>x. m = Inr x)"
  by (cases m) auto

lemma prepare_kwargs_bad_key:
  assumes "has_key kw k"
    and "k \<notin> set [''scheme'', ''authority'', ''path'', ''query'', ''fragment'', ''userinfo'',
             ''host'', ''port'', ''netloc'', ''username'', ''password'', ''full_path'']"
  shows "\<exists>e. prepare_kwargs kw = Inl e"
proof (cases "userinfo_step (netloc_step kw)")
  case (Inl e)
  then show ?thesis by (simp add: prepare_kwargs_def bind_def)
next
  case (Inr kw1)
  from assms have "has_key (netloc_step kw) k" by (auto intro: has_key_netloc_step)
  with Inr assms(2) have "has_key kw1 k" by (auto intro: has_key_userinfo_step)
  with assms(2) have "has_key (host_step (full_path_step kw1)) k"
    by (auto intro: has_key_host_step has_key_full_path_step)
  with assms(2) obtain e where "validate_kwargs (host_step (full_path_step kw1)) = Inl e"
    using validate_kwargs_bad_key [of "host_step (full_path_step kw1)" k] by auto
  with Inr show ?thesis by (simp add: prepare_kwargs_def bind_def)
qed

lemma single_netloc_step: "k \<noteq> ''netloc'' \<Longrightarrow> netloc_step [(k, v)] = [(k, v)]"
  by (simp add: netloc_step_def has_key_def)

lemma single_full_path_step: "k \<noteq> ''full_path'' \<Longrightarrow> full_path_step [(k, v)] = [(k, v)]"
  by (simp add: full_path_step_def has_key_def)

lemma single_host_step: "k \<noteq> ''host'' \<Longrightarrow> host_step [(k, v)] = [(k, v)]"
  by (simp add: host_step_def has_key_def)

lemma single_userinfo_step:
  "k \<noteq> ''username'' \<Longrightarrow> k \<noteq> ''password'' \<Longrightarrow> userinfo_step [(k, v)] = Inr [(k, v)]"
  by (simp add: userinfo_step_def has_key_def)

lemma single_validate_kwargs:
  "k \<notin> set [''scheme'', ''authority'', ''path'', ''query'', ''fragment'', ''userinfo'',
             ''host'', ''port''] \<Longrightarrow>
   validate_kwargs [(k, v)] = Inl TypeError"
  by simp

text \<open>
  The loop fails at the first entry that is not \<open>None\<close> and does not match its
  pattern, or whose key is not a component name: its result is the result on the
  entries before the first key that is not a component name, and \<open>TypeError\<close>
  when these pass and such a key exists.
\<close>

lemma validate_kwargs_step:
  assumes K: "K = set [''scheme'', ''authority'', ''path'', ''query'', ''fragment'',
                       ''userinfo'', ''host'', ''port'']"
  shows "validate_kwargs ((key, v) # rest) =
     (if key \<notin> K then Inl TypeError
      else
        (case v of
           None \<Rightarrow> validate_kwargs rest
         | Some x \<Rightarrow>
             if length x > MAX_URL_LENGTH then Inl InvalidURL
             else if list_ex is_ascii_control x then Inl InvalidURL
             else if \<not> COMPONENT_REGEX_fullmatch key x then Inl InvalidURL
             else validate_kwargs rest))"
  unfolding K by (rule validate_kwargs.simps)

lemma validate_kwargs_split:
  assumes K: "K = set [''scheme'', ''authority'', ''path'', ''query'', ''fragment'',
                       ''userinfo'', ''host'', ''port'']"
  shows "validate_kwargs kw =
     (case validate_kwargs (takeWhile (\<lambda>kv. fst kv \<in> K) kw) of
        Inl e \<Rightarrow> Inl e
      | Inr ok \<Rightarrow> if dropWhile (\<lambda>kv. fst kv \<in> K) kw = [] then Inr () else Inl TypeError)"
proof (induction kw)
  case Nil
  then show ?case by simp
next
  case (Cons a kw)
  obtain key v where a: "a = (key, v)" by (cases a)
  note st = validate_kwargs_step [OF K]
  show ?case
  proof (cases "key \<in> K")
    case False
    then show ?thesis unfolding a by (simp only: st takeWhile.simps dropWhile.simps fst_conv
          if_True if_False validate_kwargs.simps(1) sum.case list.simps not_False_eq_True)
  next
    case True
    have tw: "takeWhile (\<lambda>kv. fst kv \<in> K) ((key, w) # kw) =
        (key, w) # takeWhile (\<lambda>kv. fst kv \<in> K) kw" for w
      using True by simp
    have dw: "dropWhile (\<lambda>kv. fst kv \<in> K) ((key, w) # kw) =
        dropWhile (\<lambda>kv. fst kv \<in> K) kw" for w
      using True by simp
    show ?thesis
    proof (cases v)
      case None
      have l: "validate_kwargs ((key, None) # rest) = validate_kwargs rest" for rest
        unfolding st using True by simp
      show ?thesis unfolding a tw dw None l by (rule Cons.IH)
    next
      case (Some x)
      show ?thesis
      proof (cases "length x > MAX_URL_LENGTH \<or> list_ex is_ascii_control x \<or>
          \<not> COMPONENT_REGEX_fullmatch key x")
        case bad: True
        have l: "validate_kwargs ((key, Some x) # rest) = Inl InvalidURL" for rest
          unfolding st using True bad by auto
        show ?thesis unfolding a tw dw Some l by simp
      next
        case ok: False
        have l: "validate_kwargs ((key, Some x) # rest) = validate_kwargs rest" for rest
          unfolding st using True ok by auto
        show ?thesis unfolding a tw dw Some l by (rule Cons.IH)
      qed
    qed
  qed
qed

lemma validate_kwargs_first_unknown:
  "validate_kwargs kw =
     (case validate_kwargs
             (takeWhile (\<lambda>kv. fst kv \<in> set [''scheme'', ''authority'', ''path'', ''query'',
                ''fragment'', ''userinfo'', ''host'', ''port'']) kw) of
        Inl e \<Rightarrow> Inl e
      | Inr ok \<Rightarrow>
          if dropWhile (\<lambda>kv. fst kv \<in> set [''scheme'', ''authority'', ''path'', ''query'',
                ''fragment'', ''userinfo'', ''host'', ''port'']) kw = []
          then Inr () else Inl TypeError)"
  by (rule validate_kwargs_split [OF refl])

lemma has_key_dropWhile_gen:
  assumes "has_key kw k" and "k \<notin> K"
  shows "dropWhile (\<lambda>kv. fst kv \<in> K) kw \<noteq> []"
proof -
  from assms(1) obtain v where "map_of kw k = Some v" by (auto simp: has_key_def)
  then have "(k, v) \<in> set kw" by (rule map_of_SomeD)
  with assms(2) have "\<exists>kv \<in> set kw. \<not> fst kv \<in> K"
    by force
  then show ?thesis unfolding dropWhile_eq_Nil_conv by blast
qed

lemma has_key_dropWhile:
  assumes "has_key kw k"
    and "k \<notin> set [''scheme'', ''authority'', ''path'', ''query'', ''fragment'', ''userinfo'',
             ''host'', ''port'']"
  shows "dropWhile (\<lambda>kv. fst kv \<in> set [''scheme'', ''authority'', ''path'', ''query'',
                ''fragment'', ''userinfo'', ''host'', ''port'']) kw \<noteq> []"
  using assms by (rule has_key_dropWhile_gen)

lemma prepare_kwargs_first_unknown:
  assumes hk: "has_key kw k"
    and k: "k \<notin> set [''scheme'', ''authority'', ''path'', ''query'', ''fragment'', ''userinfo'',
             ''host'', ''port'', ''netloc'', ''username'', ''password'', ''full_path'']"
  shows "prepare_kwargs kw =
     (case userinfo_step (netloc_step kw) of
        Inl e \<Rightarrow> Inl e
      | Inr kw1 \<Rightarrow>
          (case validate_kwargs
                  (takeWhile (\<lambda>kv. fst kv \<in> set [''scheme'', ''authority'', ''path'',
                     ''query'', ''fragment'', ''userinfo'', ''host'', ''port''])
                     (host_step (full_path_step kw1))) of
             Inl e \<Rightarrow> Inl e
           | Inr ok \<Rightarrow> Inl TypeError))"
proof (cases "userinfo_step (netloc_step kw)")
  case (Inl e)
  then show ?thesis by (simp add: prepare_kwargs_def bind_def)
next
  case (Inr kw1)
  from hk k have "has_key (netloc_step kw) k" by (auto intro: has_key_netloc_step)
  with Inr k have "has_key kw1 k" by (auto intro: has_key_userinfo_step)
  with k have h: "has_key (host_step (full_path_step kw1)) k"
    by (auto intro: has_key_host_step has_key_full_path_step)
  from k have k8: "k \<notin> set [''scheme'', ''authority'', ''path'', ''query'', ''fragment'',
      ''userinfo'', ''host'', ''port'']" by simp
  note d = has_key_dropWhile [OF h k8]
  have v: "validate_kwargs (host_step (full_path_step kw1)) =
     (case validate_kwargs
             (takeWhile (\<lambda>kv. fst kv \<in> set [''scheme'', ''authority'', ''path'', ''query'',
                ''fragment'', ''userinfo'', ''host'', ''port''])
                (host_step (full_path_step kw1))) of
        Inl e \<Rightarrow> Inl e
      | Inr ok \<Rightarrow> Inl TypeError)"
    by (subst validate_kwargs_first_unknown) (simp only: d if_False)
  show ?thesis
    unfolding prepare_kwargs_def Inr bind_def sum.case v
    by (simp split: sum.splits)
qed

text \<open>
  The checks before the first key that is not a component name fail with one kind of
  error each.
\<close>

lemma validate_kwargs_known:
  assumes K: "K = set [''scheme'', ''authority'', ''path'', ''query'', ''fragment'',
                       ''userinfo'', ''host'', ''port'']"
  shows "list_all (\<lambda>kv. fst kv \<in> K) kw \<Longrightarrow> validate_kwargs kw = Inl e \<Longrightarrow> e = InvalidURL"
proof (induction kw)
  case Nil
  then show ?case by simp
next
  case (Cons a kw)
  obtain key v where a: "a = (key, v)" by (cases a)
  from Cons.prems(1) a have k: "key \<in> K" and r: "list_all (\<lambda>kv. fst kv \<in> K) kw" by simp_all
  from Cons.prems(2) show ?case
    unfolding a validate_kwargs_step [OF K] using k Cons.IH [OF r]
    by (auto split: option.splits if_splits)
qed

lemma validate_kwargs_prefix_error:
  "validate_kwargs
     (takeWhile (\<lambda>kv. fst kv \<in> set [''scheme'', ''authority'', ''path'', ''query'',
        ''fragment'', ''userinfo'', ''host'', ''port'']) kw) = Inl e \<Longrightarrow>
   e = InvalidURL"
proof (rule validate_kwargs_known [OF refl])
  show "list_all (\<lambda>kv. fst kv \<in> set [''scheme'', ''authority'', ''path'', ''query'',
        ''fragment'', ''userinfo'', ''host'', ''port''])
     (takeWhile (\<lambda>kv. fst kv \<in> set [''scheme'', ''authority'', ''path'', ''query'',
        ''fragment'', ''userinfo'', ''host'', ''port'']) kw)"
    unfolding list_all_iff by (blast dest: set_takeWhileD)
qed

lemma quote_chars_error: "quote_chars ok s = Inl e \<Longrightarrow> e = UnicodeEncodeError"
proof (induction s)
  case Nil
  then show ?case by simp
next
  case (Cons c cs)
  then show ?case
    by (auto simp: bind_def percent_encode_def utf8_def split: sum.splits if_splits)
qed

lemma userinfo_step_error: "userinfo_step kw = Inl e \<Longrightarrow> e = UnicodeEncodeError"
  by (auto simp: userinfo_step_def quote_def bind_def split: if_splits sum.splits
      dest: quote_chars_error)

text \<open>
  C9, amended: when an override key is outside the twelve recognized names,
  \<open>urlparse\<close> fails and returns no result, and the failure is the first one that
  the code meets: \<open>InvalidURL\<close> when the URL string is too long or holds a control
  character; else the \<open>UnicodeEncodeError\<close> of quoting \<open>username\<close> or
  \<open>password\<close>; else the \<open>InvalidURL\<close> of an override that the loop checks
  before the first key that is not a component name; and \<open>TypeError\<close> (the
  InvalidArgument kind) in every other case. So the failure is \<open>TypeError\<close> whenever the key is the only override and
  the URL string passes its checks, and for the overrides \<open>scheme="http"\<close>,
  \<open>foo="x"\<close>.
\<close>

theorem C9_unrecognized_key:
  "(has_key kw k \<and>
    k \<notin> set [''scheme'', ''authority'', ''path'', ''query'', ''fragment'', ''userinfo'',
              ''host'', ''port'', ''netloc'', ''username'', ''password'', ''full_path''] \<longrightarrow>
      urlparse lib url kw =
        (if MAX_URL_LENGTH < length url \<or> list_ex is_ascii_control url then Inl InvalidURL
         else
           (case userinfo_step (netloc_step kw) of
              Inl e \<Rightarrow> Inl e
            | Inr kw1 \<Rightarrow>
                (case validate_kwargs
                        (takeWhile (\<lambda>kv. fst kv \<in> set [''scheme'', ''authority'', ''path'',
                           ''query'', ''fragment'', ''userinfo'', ''host'', ''port''])
                           (host_step (full_path_step kw1))) of
                   Inl e \<Rightarrow> Inl e
                 | Inr ok \<Rightarrow> Inl TypeError)))) \<and>
   (has_key kw k \<and>
    k \<notin> set [''scheme'', ''authority'', ''path'', ''query'', ''fragment'', ''userinfo'',
              ''host'', ''port'', ''netloc'', ''username'', ''password'', ''full_path''] \<longrightarrow>
      (\<exists>e. urlparse lib url kw = Inl e)) \<and>
   (k \<notin> set [''scheme'', ''authority'', ''path'', ''query'', ''fragment'', ''userinfo'',
              ''host'', ''port'', ''netloc'', ''username'', ''password'', ''full_path''] \<and>
    length url \<le> MAX_URL_LENGTH \<and> \<not> list_ex is_ascii_control url \<longrightarrow>
      urlparse lib url [(k, v)] = Inl TypeError) \<and>
   (userinfo_step kwa = Inl e1 \<longrightarrow> e1 = UnicodeEncodeError) \<and>
   (validate_kwargs
      (takeWhile (\<lambda>kv. fst kv \<in> set [''scheme'', ''authority'', ''path'', ''query'',
         ''fragment'', ''userinfo'', ''host'', ''port'']) kwb) = Inl e2 \<longrightarrow>
      e2 = InvalidURL) \<and>
   urlparse lib [] [(''scheme'', Some (u ''http'')), (''foo'', Some (u ''x''))] = Inl TypeError"
proof -
  have a: "urlparse lib url kw =
        (if MAX_URL_LENGTH < length url \<or> list_ex is_ascii_control url then Inl InvalidURL
         else
           (case userinfo_step (netloc_step kw) of
              Inl e \<Rightarrow> Inl e
            | Inr kw1 \<Rightarrow>
                (case validate_kwargs
                        (takeWhile (\<lambda>kv. fst kv \<in> set [''scheme'', ''authority'', ''path'',
                           ''query'', ''fragment'', ''userinfo'', ''host'', ''port''])
                           (host_step (full_path_step kw1))) of
                   Inl e \<Rightarrow> Inl e
                 | Inr ok \<Rightarrow> Inl TypeError)))"
    if h: "has_key kw k"
      "k \<notin> set [''scheme'', ''authority'', ''path'', ''query'', ''fragment'', ''userinfo'',
              ''host'', ''port'', ''netloc'', ''username'', ''password'', ''full_path'']"
    unfolding urlparse_def prepare_kwargs_first_unknown [OF h]
    by (simp add: bind_def split: sum.splits)
  have b: "\<exists>e. urlparse lib url kw = Inl e"
    if "has_key kw k"
      "k \<notin> set [''scheme'', ''authority'', ''path'', ''query'', ''fragment'', ''userinfo'',
              ''host'', ''port'', ''netloc'', ''username'', ''password'', ''full_path'']"
  proof -
    from prepare_kwargs_bad_key [OF that] obtain e where "prepare_kwargs kw = Inl e" by blast
    then show ?thesis by (simp add: urlparse_def bind_def)
  qed
  have c: "urlparse lib url [(k, v)] = Inl TypeError"
    if "k \<notin> set [''scheme'', ''authority'', ''path'', ''query'', ''fragment'', ''userinfo'',
              ''host'', ''port'', ''netloc'', ''username'', ''password'', ''full_path'']"
      "length url \<le> MAX_URL_LENGTH" "\<not> list_ex is_ascii_control url"
  proof -
    from that(1) have k: "k \<noteq> ''netloc''" "k \<noteq> ''full_path''" "k \<noteq> ''host''"
      "k \<noteq> ''username''" "k \<noteq> ''password''"
      "k \<notin> set [''scheme'', ''authority'', ''path'', ''query'', ''fragment'', ''userinfo'',
              ''host'', ''port'']"
      by simp_all
    have "prepare_kwargs [(k, v)] = Inl TypeError"
      by (simp only: prepare_kwargs_def single_netloc_step [OF k(1)]
          single_userinfo_step [OF k(4) k(5)] single_full_path_step [OF k(2)]
          single_host_step [OF k(3)] single_validate_kwargs [OF k(6)] bind_def sum.case)
    with that(2,3) show ?thesis by (simp add: urlparse_def bind_def)
  qed
  have d: "urlparse lib [] [(''scheme'', Some (u ''http'')), (''foo'', Some (u ''x''))] =
      Inl TypeError"
    by (simp add: ev)
  note e = userinfo_step_error [of kwa e1] validate_kwargs_prefix_error [of kwb e2]
  show ?thesis
    apply (intro conjI impI)
    using a b c d e apply blast+
    done
qed

theorem C9_unrecognized_key_witness:
  "has_key [(''scheme'', Some (u ''http'')), (''foo'', Some (u ''x''))] ''foo'' \<and>
   userinfo_step (netloc_step [(''scheme'', Some (u ''http'')), (''foo'', Some (u ''x''))]) =
     Inr [(''scheme'', Some (u ''http'')), (''foo'', Some (u ''x''))] \<and>
   validate_kwargs
     (takeWhile (\<lambda>kv. fst kv \<in> set [''scheme'', ''authority'', ''path'',
        ''query'', ''fragment'', ''userinfo'', ''host'', ''port''])
        (host_step (full_path_step [(''scheme'', Some (u ''http'')), (''foo'', Some (u ''x''))])))
     = Inr () \<and>
   urlparse strict_lib (u ''http://a/'') [(''scheme'', Some (u ''http'')), (''foo'', Some (u ''x''))] =
     Inl TypeError \<and>
   urlparse strict_lib (u ''http://a/'') [(''path'', Some (u ''?'')), (''foo'', None)] =
     Inl InvalidURL \<and>
   urlparse strict_lib (u ''http://a/'') [(''username'', Some [55296]), (''foo'', None)] =
     Inl UnicodeEncodeError \<and>
   urlparse strict_lib (u ''http://a/'') [(''foo'', Some (u ''x''))] = Inl TypeError"
proof -
  let ?kw3 = "[(''username'', Some [55296]), (''foo'', None)]"
  let ?kw = "[(''scheme'', Some (u ''http'')), (''foo'', Some (u ''x''))]"
  let ?kw2 = "[(''path'', Some (u ''?'')), (''foo'', None)]"
  have a: "has_key ?kw ''foo''" by (simp add: has_key_def)
  have a2: "has_key ?kw2 ''foo''" by (simp add: has_key_def)
  have b: "length (u ''http://a/'') \<le> MAX_URL_LENGTH \<and> \<not> list_ex is_ascii_control (u ''http://a/'')"
    by (simp add: ev)
  have c: "''foo'' \<notin> set [''scheme'', ''authority'', ''path'', ''query'', ''fragment'',
      ''userinfo'', ''host'', ''port'', ''netloc'', ''username'', ''password'', ''full_path'']"
    by simp
  have s: "userinfo_step (netloc_step ?kw) = Inr ?kw"
    by (simp add: userinfo_step_def netloc_step_def has_key_def)
  have s2: "userinfo_step (netloc_step ?kw2) = Inr ?kw2"
    by (simp add: userinfo_step_def netloc_step_def has_key_def)
  have v: "validate_kwargs
     (takeWhile (\<lambda>kv. fst kv \<in> set [''scheme'', ''authority'', ''path'',
        ''query'', ''fragment'', ''userinfo'', ''host'', ''port''])
        (host_step (full_path_step ?kw))) = Inr ()"
    by (simp add: ev)
  have v2: "validate_kwargs
     (takeWhile (\<lambda>kv. fst kv \<in> set [''scheme'', ''authority'', ''path'',
        ''query'', ''fragment'', ''userinfo'', ''host'', ''port''])
        (host_step (full_path_step ?kw2))) = Inl InvalidURL"
    by (simp add: ev)
  note t1 = C9_unrecognized_key [of ?kw "''foo''" strict_lib "u ''http://a/''",
      THEN conjunct1, THEN mp, OF conjI [OF a c]]
  note t2 = C9_unrecognized_key [of ?kw2 "''foo''" strict_lib "u ''http://a/''",
      THEN conjunct1, THEN mp, OF conjI [OF a2 c]]
  have r1: "urlparse strict_lib (u ''http://a/'') ?kw = Inl TypeError"
    unfolding t1 s sum.case v using b by simp
  have r2: "urlparse strict_lib (u ''http://a/'') ?kw2 = Inl InvalidURL"
    unfolding t2 s2 sum.case v2 using b by simp
  have a3: "has_key ?kw3 ''foo''" by (simp add: has_key_def)
  have s3: "userinfo_step (netloc_step ?kw3) = Inl UnicodeEncodeError"
    by (simp add: ev)
  note t3 = C9_unrecognized_key [of ?kw3 "''foo''" strict_lib "u ''http://a/''",
      THEN conjunct1, THEN mp, OF conjI [OF a3 c]]
  have r4: "urlparse strict_lib (u ''http://a/'') ?kw3 = Inl UnicodeEncodeError"
    unfolding t3 s3 sum.case using b by simp
  have r3: "urlparse strict_lib (u ''http://a/'') [(''foo'', Some (u ''x''))] = Inl TypeError"
    using C9_unrecognized_key [of ?kw "''foo''" strict_lib "u ''http://a/''" "Some (u ''x'')"] b c
    by blast
  from a s v r1 r2 r4 r3 show ?thesis by (intro conjI)
qed

subsection \<open>The absolute-path rule\<close>

lemma quote_Nil: "quote [] safe = Inr []"
  by (simp add: quote_def)

lemma encode_host_Nil: "encode_host lib [] = Inr []"
  by (simp add: encode_host_def)

lemma normalize_port_empty: "or_empty p = [] \<Longrightarrow> normalize_port lib p s = Inr None"
  by (cases p) (simp_all add: normalize_port_def or_empty_def)

lemma normalize_port_error: "normalize_port lib p s = Inl e \<Longrightarrow> e = InvalidURL"
  by (auto simp: normalize_port_def split: option.splits if_splits)

lemma authority_nonempty:
  "authority r \<noteq> [] \<Longrightarrow> userinfo r \<noteq> [] \<or> host r \<noteq> [] \<or> port r \<noteq> None"
  by (auto simp: authority_def split: if_splits option.splits)

lemma join_with_root:
  "out \<noteq> [] \<Longrightarrow> hd out = [] \<Longrightarrow> join_with 47 out = [] \<or> hd (join_with 47 out) = 47"
proof (cases out)
  case Nil
  then show "out \<noteq> [] \<Longrightarrow> ?thesis" by simp
next
  case (Cons x xs)
  assume "hd out = []"
  with Cons have x: "x = []" by simp
  show ?thesis
  proof (cases xs)
    case Nil
    with Cons x show ?thesis by simp
  next
    case (Cons y ys)
    with \<open>out = x # xs\<close> x show ?thesis by simp
  qed
qed

lemma normalize_path_absolute:
  "p = [] \<or> hd p = 47 \<Longrightarrow> normalize_path p = [] \<or> hd (normalize_path p) = 47"
proof (cases p)
  case Nil
  then show ?thesis by (simp add: normalize_path_def dot_step_empty)
next
  case (Cons c cs)
  assume "p = [] \<or> hd p = 47"
  with Cons have c: "c = 47" by simp
  have "foldl dot_step [] (split_on 47 p) = foldl dot_step [[]] (split_on 47 cs)"
    by (simp add: Cons c dot_step_empty)
  with foldl_dot_step_keeps_root [of "[[]]" "split_on 47 cs"]
  have "foldl dot_step [] (split_on 47 p) \<noteq> [] \<and> hd (foldl dot_step [] (split_on 47 p)) = []"
    by simp
  then show ?thesis unfolding normalize_path_def using join_with_root by blast
qed

lemma quote_chars_keeps_head:
  "quote_chars ok (c # cs) = Inr q \<Longrightarrow> c \<in> set ok \<Longrightarrow> q \<noteq> [] \<and> hd q = c"
  by (auto simp: bind_Inr_iff)

lemma quote_keeps_slash:
  assumes "quote p safe = Inr q" and "47 \<in> set safe" and "p = [] \<or> hd p = 47"
  shows "q = [] \<or> hd q = 47"
proof (cases p)
  case Nil
  with assms(1) show ?thesis by (simp add: quote_def)
next
  case (Cons c cs)
  with assms(3) have c: "c = 47" by simp
  from assms(2) have "47 \<in> set (NON_ESCAPED_CHARS p safe)"
    by (simp add: NON_ESCAPED_CHARS_def)
  with assms(1) Cons c show ?thesis
    using quote_chars_keeps_head [of "NON_ESCAPED_CHARS p safe" 47 cs q]
    by (simp add: quote_def)
qed

lemma authority_path_absolute:
  "authority_path c = Inr p1 \<Longrightarrow>
   c_userinfo c \<noteq> [] \<or> c_host c \<noteq> [] \<or> or_empty (c_port c) \<noteq> [] \<Longrightarrow>
   p1 = [] \<or> hd p1 = 47"
  using normalize_path_absolute [of "c_path c"]
  by (auto simp: authority_path_def validate_absolute_path_def bind_Inr_iff split: if_splits)

lemma authority_path_relative:
  "c_userinfo c \<noteq> [] \<or> c_host c \<noteq> [] \<or> or_empty (c_port c) \<noteq> [] \<Longrightarrow>
   c_path c \<noteq> [] \<Longrightarrow> hd (c_path c) \<noteq> 47 \<Longrightarrow> authority_path c = Inl InvalidURL"
  by (simp add: authority_path_def validate_absolute_path_def bind_def)

lemma normalize_components_relative:
  assumes a: "c_userinfo c \<noteq> [] \<or> c_host c \<noteq> [] \<or> or_empty (c_port c) \<noteq> []"
    and p: "c_path c \<noteq> []" "hd (c_path c) \<noteq> 47"
  shows "\<exists>e. normalize_components lib c = Inl e \<and>
     (e = InvalidURL \<or> quote (c_userinfo c) (SUB_DELIMS @ u '':'') = Inl e \<or>
      encode_host lib (c_host c) = Inl e)"
proof (cases "quote (c_userinfo c) (SUB_DELIMS @ u '':'')")
  case (Inl e)
  then show ?thesis by (simp add: normalize_components_def bind_def)
next
  case q: (Inr qu)
  show ?thesis
  proof (cases "encode_host lib (c_host c)")
    case (Inl e)
    with q show ?thesis by (simp add: normalize_components_def bind_def)
  next
    case h: (Inr hs)
    show ?thesis
    proof (cases "normalize_port lib (c_port c) (c_scheme c)")
      case (Inl e)
      with normalize_port_error have "e = InvalidURL" by blast
      with Inl q h show ?thesis by (simp add: normalize_components_def bind_def)
    next
      case (Inr po)
      with q h authority_path_relative [OF a p] show ?thesis
        by (simp add: normalize_components_def bind_def)
    qed
  qed
qed

text \<open>
  C7, as the claim states it, fails: with the overrides \<open>userinfo\<close> (a lone
  surrogate, U+D800), \<open>host="x"\<close> and \<open>path="y"\<close> every check of the keyword
  arguments passes, the merged authority is not empty and the path is relative, and the
  failure is \<open>UnicodeEncodeError\<close>: the userinfo is quoted before the path is
  checked.
\<close>

theorem C7_counterexample:
  "urlparse strict_lib []
     [(''userinfo'', Some [55296]), (''host'', Some (u ''x'')), (''path'', Some (u ''y''))] =
   Inl UnicodeEncodeError"
  by (simp add: ev)

text \<open>
  C7, amended: whenever the merged authority is not empty (userinfo, host or port is
  set) and the path is not empty and does not start with \<open>/\<close>, \<open>urlparse\<close> fails
  and returns no result; the failure is \<open>InvalidURL\<close>, unless it is the failure of
  encoding the userinfo or the host, which come first. The overrides \<open>host="x"\<close>,
  \<open>path="y"\<close> fail with \<open>InvalidURL\<close>. Every result with a non-empty authority
  has a path that is empty or starts with \<open>/\<close>.
\<close>

theorem C7_absolute_path:
  "(prepare_kwargs kw = Inr kw' \<and>
    (c_userinfo (merge_components url kw') \<noteq> [] \<or> c_host (merge_components url kw') \<noteq> [] \<or>
     or_empty (c_port (merge_components url kw')) \<noteq> []) \<and>
    c_path (merge_components url kw') \<noteq> [] \<and> hd (c_path (merge_components url kw')) \<noteq> 47 \<longrightarrow>
    (\<exists>e. urlparse lib url kw = Inl e \<and>
       (e = InvalidURL \<or>
        quote (c_userinfo (merge_components url kw')) (SUB_DELIMS @ u '':'') = Inl e \<or>
        encode_host lib (c_host (merge_components url kw')) = Inl e))) \<and>
   urlparse lib [] [(''host'', Some (u ''x'')), (''path'', Some (u ''y''))] = Inl InvalidURL \<and>
   (urlparse lib url kw = Inr r \<and> authority r \<noteq> [] \<longrightarrow> path r = [] \<or> hd (path r) = 47)"
proof -
  have a: "\<exists>e. urlparse lib url kw = Inl e \<and>
       (e = InvalidURL \<or>
        quote (c_userinfo (merge_components url kw')) (SUB_DELIMS @ u '':'') = Inl e \<or>
        encode_host lib (c_host (merge_components url kw')) = Inl e)"
    if h: "prepare_kwargs kw = Inr kw'"
      "c_userinfo (merge_components url kw') \<noteq> [] \<or> c_host (merge_components url kw') \<noteq> [] \<or>
       or_empty (c_port (merge_components url kw')) \<noteq> []"
      "c_path (merge_components url kw') \<noteq> []" "hd (c_path (merge_components url kw')) \<noteq> 47"
    using normalize_components_relative [OF h(2) h(3) h(4), of lib] h(1)
    by (auto simp: urlparse_def bind_def)
  have b: "urlparse lib [] [(''host'', Some (u ''x'')), (''path'', Some (u ''y''))] = Inl InvalidURL"
    by (simp add: ev)
  have c: "path r = [] \<or> hd (path r) = 47" if h: "urlparse lib url kw = Inr r" "authority r \<noteq> []"
  proof -
    from urlparse_InrD [OF h(1)] obtain kw' where
      n: "normalize_components lib (merge_components url kw') = Inr r" by blast
    let ?c = "merge_components url kw'"
    from normalize_components_InrD [OF n] obtain p1 where
      u: "quote (c_userinfo ?c) (SUB_DELIMS @ u '':'') = Inr (userinfo r)" and
      ho: "encode_host lib (c_host ?c) = Inr (host r)" and
      po: "normalize_port lib (c_port ?c) (c_scheme ?c) = Inr (port r)" and
      ap: "authority_path ?c = Inr p1" and
      qp: "quote p1 (SUB_DELIMS @ u '':@/'') = Inr (path r)"
      by blast
    have "c_userinfo ?c \<noteq> [] \<or> c_host ?c \<noteq> [] \<or> or_empty (c_port ?c) \<noteq> []"
    proof (rule ccontr)
      assume "\<not> ?thesis"
      then have e: "c_userinfo ?c = []" "c_host ?c = []" "or_empty (c_port ?c) = []" by auto
      from u e(1) have "userinfo r = []" by (simp add: quote_Nil)
      moreover from ho e(2) have "host r = []" by (simp add: encode_host_Nil)
      moreover from po normalize_port_empty [OF e(3)] have "port r = None" by simp
      ultimately show False using authority_nonempty [OF h(2)] by simp
    qed
    from authority_path_absolute [OF ap this] have "p1 = [] \<or> hd p1 = 47" .
    moreover have "47 \<in> set (SUB_DELIMS @ u '':@/'')" by (simp add: u_def)
    ultimately show ?thesis using quote_keeps_slash [OF qp] by blast
  qed
  from a b c show ?thesis by blast
qed

theorem C7_absolute_path_witness:
  "prepare_kwargs [(''host'', Some (u ''x'')), (''path'', Some (u ''y''))] =
     Inr [(''host'', Some (u ''x'')), (''path'', Some (u ''y''))] \<and>
   c_host (merge_components [] [(''host'', Some (u ''x'')), (''path'', Some (u ''y''))]) = u ''x'' \<and>
   c_path (merge_components [] [(''host'', Some (u ''x'')), (''path'', Some (u ''y''))]) = u ''y'' \<and>
   urlparse strict_lib [] [(''host'', Some (u ''x'')), (''path'', Some (u ''y''))] = Inl InvalidURL \<and>
   urlparse strict_lib (u ''http://example.com/a'') [] =
     Inr \<lparr>scheme = u ''http'', userinfo = [], host = u ''example.com'', port = None,
          path = u ''/a'', query = None, fragment = None\<rparr> \<and>
   authority \<lparr>scheme = u ''http'', userinfo = [], host = u ''example.com'', port = None,
          path = u ''/a'', query = None, fragment = None\<rparr> \<noteq> [] \<and>
   hd (u ''/a'') = 47"
proof -
  have a: "prepare_kwargs [(''host'', Some (u ''x'')), (''path'', Some (u ''y''))] =
     Inr [(''host'', Some (u ''x'')), (''path'', Some (u ''y''))]"
    by (simp add: ev)
  have b: "c_host (merge_components [] [(''host'', Some (u ''x'')), (''path'', Some (u ''y''))]) = u ''x''"
    by (simp add: ev)
  have c: "c_path (merge_components [] [(''host'', Some (u ''x'')), (''path'', Some (u ''y''))]) = u ''y''"
    by (simp add: ev)
  have d: "urlparse strict_lib (u ''http://example.com/a'') [] =
     Inr \<lparr>scheme = u ''http'', userinfo = [], host = u ''example.com'', port = None,
          path = u ''/a'', query = None, fragment = None\<rparr>"
    by (simp add: ev)
  have e: "authority \<lparr>scheme = u ''http'', userinfo = [], host = u ''example.com'', port = None,
          path = u ''/a'', query = None, fragment = None\<rparr> \<noteq> []"
    by (simp add: authority_def u_def)
  have f: "hd (u ''/a'') = 47" by (simp add: u_def)
  have g: "urlparse strict_lib [] [(''host'', Some (u ''x'')), (''path'', Some (u ''y''))] = Inl InvalidURL"
    using C7_absolute_path [of "[(''host'', Some (u ''x'')), (''path'', Some (u ''y''))]"
      "[(''host'', Some (u ''x'')), (''path'', Some (u ''y''))]" "[]" strict_lib]
    by blast
  have "path \<lparr>scheme = u ''http'', userinfo = [], host = u ''example.com'', port = None,
          path = u ''/a'', query = None, fragment = None\<rparr> = [] \<or>
     hd (path \<lparr>scheme = u ''http'', userinfo = [], host = u ''example.com'', port = None,
          path = u ''/a'', query = None, fragment = None\<rparr>) = 47"
    using C7_absolute_path [of "[]" "[]" "u ''http://example.com/a''" strict_lib
      "\<lparr>scheme = u ''http'', userinfo = [], host = u ''example.com'', port = None,
          path = u ''/a'', query = None, fragment = None\<rparr>"] d e
    by blast
  from a b c d e f g show ?thesis by blast
qed

subsection \<open>Overrides that are \<open>None\<close>\<close>
















subsection \<open>Percent-encoding is idempotent\<close>

lemma hex_not_percent: "is_hex c \<Longrightarrow> c \<noteq> 37"
  by (auto simp: is_hex_def is_digit_def)

lemma hex_unreserved: "is_hex c \<Longrightarrow> c \<in> set UNRESERVED_CHARACTERS"
proof -
  assume h: "is_hex c"
  then have "c = 65 \<or> c = 66 \<or> c = 67 \<or> c = 68 \<or> c = 69 \<or> c = 70 \<or>
     c = 97 \<or> c = 98 \<or> c = 99 \<or> c = 100 \<or> c = 101 \<or> c = 102 \<or>
     c = 48 \<or> c = 49 \<or> c = 50 \<or> c = 51 \<or> c = 52 \<or> c = 53 \<or> c = 54 \<or>
     c = 55 \<or> c = 56 \<or> c = 57"
    unfolding is_hex_def is_digit_def by arith
  then show ?thesis
    by (auto simp: UNRESERVED_CHARACTERS_def u_def)
qed

lemma percent_not_unreserved: "37 \<notin> set UNRESERVED_CHARACTERS"
  by (simp add: UNRESERVED_CHARACTERS_def u_def)

lemma hex_upper_is_hex: "d < 16 \<Longrightarrow> is_hex (hex_upper d)"
  by (auto simp: hex_upper_def is_hex_def is_digit_def)

lemma findall_le_count: "findall_count s \<le> count_percent s"
  by (induction s rule: findall_count.induct) (auto simp: count_percent_def)

lemma escaped_iff_counts: "every_percent_escaped s \<longleftrightarrow> count_percent s = findall_count s"
proof (induction s rule: findall_count.induct)
  case (1 a b c cs)
  show ?case
  proof (cases "a = 37 \<and> is_hex b \<and> is_hex c")
    case True
    then have "b \<noteq> 37" "c \<noteq> 37" using hex_not_percent by auto
    with True 1 show ?thesis by (simp add: count_percent_def)
  next
    case False
    show ?thesis
    proof (cases "a = 37")
      case True
      with False have "\<not> every_percent_escaped (a # b # c # cs)" by auto
      moreover have "findall_count (a # b # c # cs) = findall_count (b # c # cs)"
        using False by (simp only: findall_count.simps if_False)
      moreover have "count_percent (a # b # c # cs) = Suc (count_percent (b # c # cs))"
        using True by (simp add: count_percent_def)
      moreover note findall_le_count [of "b # c # cs"]
      ultimately show ?thesis by linarith
    next
      case a: False
      with False 1 show ?thesis by (simp add: count_percent_def)
    qed
  qed
qed (auto simp: count_percent_def)


lemma quote_chars_id: "list_all (\<lambda>c. c \<in> set ok) s \<Longrightarrow> quote_chars ok s = Inr s"
  by (induction s) (simp_all add: bind_def)

lemma unreserved_non_escaped: "set (UNRESERVED_CHARACTERS @ safe) \<subseteq> set (NON_ESCAPED_CHARS s safe)"
  by (auto simp: NON_ESCAPED_CHARS_def)

lemma non_escaped_subset:
  "set (NON_ESCAPED_CHARS s safe) \<subseteq> set (UNRESERVED_CHARACTERS @ safe) \<union> {37}"
  by (auto simp: NON_ESCAPED_CHARS_def)

lemma percent_non_escaped:
  "37 \<notin> set safe \<Longrightarrow> 37 \<in> set (NON_ESCAPED_CHARS s safe) \<longleftrightarrow> every_percent_escaped s"
  using percent_not_unreserved by (auto simp: NON_ESCAPED_CHARS_def escaped_iff_counts)

lemma quote_fixed:
  assumes "every_percent_escaped s"
    and "list_all (\<lambda>c. c = 37 \<or> c \<in> set (UNRESERVED_CHARACTERS @ safe)) s"
  shows "quote s safe = Inr s"
proof -
  from assms(1) have "NON_ESCAPED_CHARS s safe = UNRESERVED_CHARACTERS @ safe @ [37]"
    by (simp add: NON_ESCAPED_CHARS_def escaped_iff_counts)
  with assms(2) have "list_all (\<lambda>c. c \<in> set (NON_ESCAPED_CHARS s safe)) s"
    by (auto simp: list_all_iff)
  then show ?thesis unfolding quote_def by (rule quote_chars_id)
qed

lemma utf8_bytes: "utf8 c = Inr bs \<Longrightarrow> list_all (\<lambda>b. b < 256) bs"
  by (auto simp: utf8_def split: if_splits)

lemma triples_chars:
  "list_all (\<lambda>b. b < 256) bs \<Longrightarrow>
   set (concat (map (\<lambda>b. [37, hex_upper (b div 16), hex_upper (b mod 16)]) bs))
     \<subseteq> set UNRESERVED_CHARACTERS \<union> {37}"
proof (induction bs)
  case Nil
  then show ?case by simp
next
  case (Cons b bs)
  then have "b div 16 < 16" "b mod 16 < 16" by auto
  then have "hex_upper (b div 16) \<in> set UNRESERVED_CHARACTERS"
    "hex_upper (b mod 16) \<in> set UNRESERVED_CHARACTERS"
    by (simp_all add: hex_unreserved hex_upper_is_hex)
  with Cons show ?case by auto
qed

lemma escaped_triple:
  "is_hex x \<Longrightarrow> is_hex y \<Longrightarrow> every_percent_escaped (37 # x # y # t) = every_percent_escaped t"
  using hex_not_percent by auto

lemma triples_escaped:
  "list_all (\<lambda>b. b < 256) bs \<Longrightarrow>
   every_percent_escaped
     (concat (map (\<lambda>b. [37, hex_upper (b div 16), hex_upper (b mod 16)]) bs) @ t)
   = every_percent_escaped t"
proof (induction bs)
  case Nil
  then show ?case by simp
next
  case (Cons b bs)
  then have "b div 16 < 16" "b mod 16 < 16" by auto
  then have h: "is_hex (hex_upper (b div 16))" "is_hex (hex_upper (b mod 16))"
    by (auto intro: hex_upper_is_hex)
  from Cons have ih: "every_percent_escaped
     (concat (map (\<lambda>b. [37, hex_upper (b div 16), hex_upper (b mod 16)]) bs) @ t)
   = every_percent_escaped t" by simp
  have eq: "concat (map (\<lambda>b. [37, hex_upper (b div 16), hex_upper (b mod 16)]) (b # bs)) @ t =
    37 # hex_upper (b div 16) # hex_upper (b mod 16) #
      (concat (map (\<lambda>b. [37, hex_upper (b div 16), hex_upper (b mod 16)]) bs) @ t)"
    by simp
  show ?case unfolding eq escaped_triple [OF h] by (rule ih)
qed

lemma percent_encode_chars:
  "percent_encode c = Inr enc \<Longrightarrow> set enc \<subseteq> set UNRESERVED_CHARACTERS \<union> {37}"
proof -
  assume "percent_encode c = Inr enc"
  then obtain bs where b: "utf8 c = Inr bs" and
    e: "enc = concat (map (\<lambda>b. [37, hex_upper (b div 16), hex_upper (b mod 16)]) bs)"
    by (auto simp: percent_encode_def bind_Inr_iff)
  from triples_chars [OF utf8_bytes [OF b]] e show ?thesis by simp
qed

lemma percent_encode_escaped:
  "percent_encode c = Inr enc \<Longrightarrow> every_percent_escaped (enc @ t) = every_percent_escaped t"
proof -
  assume "percent_encode c = Inr enc"
  then obtain bs where b: "utf8 c = Inr bs" and
    e: "enc = concat (map (\<lambda>b. [37, hex_upper (b div 16), hex_upper (b mod 16)]) bs)"
    by (auto simp: percent_encode_def bind_Inr_iff)
  from triples_escaped [OF utf8_bytes [OF b], of t] e show ?thesis by simp
qed

lemma quote_chars_set:
  "quote_chars ok s = Inr t \<Longrightarrow> set UNRESERVED_CHARACTERS \<subseteq> set ok \<Longrightarrow>
   set t \<subseteq> set ok \<union> {37}"
proof (induction s arbitrary: t)
  case Nil
  then show ?case by simp
next
  case (Cons c cs)
  from Cons.prems(1) obtain x xs where
    x: "(if c \<in> set ok then Inr [c] else percent_encode c) = Inr x" and
    xs: "quote_chars ok cs = Inr xs" and t: "t = x @ xs"
    by (auto simp: bind_Inr_iff)
  from Cons.IH [OF xs Cons.prems(2)] have 1: "set xs \<subseteq> set ok \<union> {37}" .
  have 2: "set x \<subseteq> set ok \<union> {37}"
  proof (cases "c \<in> set ok")
    case True
    with x show ?thesis by auto
  next
    case False
    with x have "percent_encode c = Inr x" by simp
    from percent_encode_chars [OF this] Cons.prems(2) show ?thesis by auto
  qed
  from 1 2 t show ?case by auto
qed

lemma quote_chars_escaped:
  "quote_chars ok s = Inr t \<Longrightarrow> set UNRESERVED_CHARACTERS \<subseteq> set ok \<Longrightarrow>
   (37 \<in> set ok \<longrightarrow> every_percent_escaped s) \<Longrightarrow> every_percent_escaped t"
proof (induction s arbitrary: t)
  case Nil
  then show ?case by simp
next
  case (Cons c cs)
  from Cons.prems(1) obtain x xs where
    x: "(if c \<in> set ok then Inr [c] else percent_encode c) = Inr x" and
    xs: "quote_chars ok cs = Inr xs" and t: "t = x @ xs"
    by (auto simp: bind_Inr_iff)
  from Cons.prems(3) have "37 \<in> set ok \<longrightarrow> every_percent_escaped cs" by simp
  from Cons.IH [OF xs Cons.prems(2) this] have e: "every_percent_escaped xs" .
  show ?case
  proof (cases "c \<in> set ok")
    case False
    with x have "percent_encode c = Inr x" by simp
    from percent_encode_escaped [OF this, of xs] e t show ?thesis by simp
  next
    case True
    with x t have t': "t = c # xs" by auto
    show ?thesis
    proof (cases "c = 37")
      case False
      with t' e show ?thesis by simp
    next
      case c: True
      with True Cons.prems(3) have "every_percent_escaped (c # cs)" by simp
      with c obtain b d rest where cs: "cs = b # d # rest" and h: "is_hex b" "is_hex d"
        by (auto split: list.splits)
      from h Cons.prems(2) have "b \<in> set ok" "d \<in> set ok"
        using hex_unreserved by auto
      with xs cs obtain ys where "xs = b # d # ys"
        by (auto simp: bind_Inr_iff)
      with t' e h show ?thesis by simp
    qed
  qed
qed

lemma quote_idempotent:
  assumes q: "quote s safe = Inr t"
  shows "quote t safe = Inr t"
proof -
  let ?ok = "NON_ESCAPED_CHARS s safe"
  from q have qc: "quote_chars ?ok s = Inr t" by (simp add: quote_def)
  have u: "set UNRESERVED_CHARACTERS \<subseteq> set ?ok"
    using unreserved_non_escaped [of safe s] by auto
  from quote_chars_set [OF qc u] non_escaped_subset [of s safe]
  have st: "set t \<subseteq> set (UNRESERVED_CHARACTERS @ safe) \<union> {37}" by blast
  show ?thesis
  proof (cases "37 \<in> set safe")
    case True
    with st have "set t \<subseteq> set (UNRESERVED_CHARACTERS @ safe)" by auto
    with unreserved_non_escaped [of safe t]
    have "list_all (\<lambda>c. c \<in> set (NON_ESCAPED_CHARS t safe)) t"
      by (auto simp: list_all_iff)
    then show ?thesis unfolding quote_def by (rule quote_chars_id)
  next
    case False
    then have "37 \<in> set ?ok \<longrightarrow> every_percent_escaped s"
      by (simp add: percent_non_escaped)
    from quote_chars_escaped [OF qc u this] have "every_percent_escaped t" .
    moreover from st have "list_all (\<lambda>c. c = 37 \<or> c \<in> set (UNRESERVED_CHARACTERS @ safe)) t"
      by (auto simp: list_all_iff)
    ultimately show ?thesis by (rule quote_fixed)
  qed
qed

text \<open>
  C4: for every string and safe set, a string whose every \<open>%\<close> is followed by two
  hex digits and whose other characters are unreserved or safe is returned unchanged by
  \<open>quote\<close>; and quoting the result of \<open>quote\<close> again, with the same safe set,
  returns it unchanged (when \<open>quote\<close> fails, on a lone surrogate, so does quoting
  twice).
\<close>

theorem C4_quote_idempotent:
  "(every_percent_escaped s \<and>
    list_all (\<lambda>c. c = 37 \<or> c \<in> set (UNRESERVED_CHARACTERS @ safe)) s \<longrightarrow>
      quote s safe = Inr s) \<and>
   bind (quote s safe) (\<lambda>t. quote t safe) = quote s safe"
proof -
  have "bind (quote s safe) (\<lambda>t. quote t safe) = quote s safe"
  proof (cases "quote s safe")
    case (Inl e)
    then show ?thesis by (simp add: bind_def)
  next
    case (Inr t)
    with quote_idempotent [OF Inr] show ?thesis by (simp add: bind_def)
  qed
  with quote_fixed [of s safe] show ?thesis by blast
qed

theorem C4_quote_idempotent_witness:
  "every_percent_escaped (u ''a%20b%2fc'') \<and>
   list_all (\<lambda>c. c = 37 \<or> c \<in> set (UNRESERVED_CHARACTERS @ SUB_DELIMS)) (u ''a%20b%2fc'') \<and>
   quote (u ''a%20b%2fc'') SUB_DELIMS = Inr (u ''a%20b%2fc'') \<and>
   quote (u ''50% of a/b'') SUB_DELIMS = Inr (u ''50%25%20of%20a%2Fb'') \<and>
   bind (quote (u ''50% of a/b'') SUB_DELIMS) (\<lambda>t. quote t SUB_DELIMS) =
     Inr (u ''50%25%20of%20a%2Fb'')"
proof -
  have a: "every_percent_escaped (u ''a%20b%2fc'')"
    by (simp add: u_def is_hex_def is_digit_def)
  have b: "list_all (\<lambda>c. c = 37 \<or> c \<in> set (UNRESERVED_CHARACTERS @ SUB_DELIMS)) (u ''a%20b%2fc'')"
    by (simp add: u_def UNRESERVED_CHARACTERS_def SUB_DELIMS_def)
  have c: "quote (u ''50% of a/b'') SUB_DELIMS = Inr (u ''50%25%20of%20a%2Fb'')"
    by (simp add: ev)
  from C4_quote_idempotent [of "u ''a%20b%2fc''" SUB_DELIMS] a b
  have d: "quote (u ''a%20b%2fc'') SUB_DELIMS = Inr (u ''a%20b%2fc'')" by blast
  from C4_quote_idempotent [of "u ''50% of a/b''" SUB_DELIMS] c
  have e: "bind (quote (u ''50% of a/b'') SUB_DELIMS) (\<lambda>t. quote t SUB_DELIMS) =
     Inr (u ''50%25%20of%20a%2Fb'')" by simp
  from a b c d e show ?thesis by blast
qed

subsection \<open>The characters of the fields\<close>

lemma quote_set: "quote s safe = Inr t \<Longrightarrow> set t \<subseteq> set (UNRESERVED_CHARACTERS @ safe @ [37])"
proof -
  assume q: "quote s safe = Inr t"
  then have qc: "quote_chars (NON_ESCAPED_CHARS s safe) s = Inr t" by (simp add: quote_def)
  have "set UNRESERVED_CHARACTERS \<subseteq> set (NON_ESCAPED_CHARS s safe)"
    using unreserved_non_escaped [of safe s] by auto
  from quote_chars_set [OF qc this] non_escaped_subset [of s safe] show ?thesis by auto
qed

lemma quote_opt_set:
  "quote_opt v safe = Inr w \<Longrightarrow> w = Some t \<Longrightarrow> set t \<subseteq> set (UNRESERVED_CHARACTERS @ safe @ [37])"
  using quote_set by (cases v) (auto simp: quote_opt_def bind_Inr_iff)

lemma split_on_chars: "set s \<subseteq> \<Union> (set ` set (split_on d s)) \<union> {d}"
proof (induction s)
  case Nil
  then show ?case by simp
next
  case (Cons c cs)
  then show ?case by (cases "split_on d cs") auto
qed

lemma digit_unreserved: "is_digit c \<Longrightarrow> c \<in> set UNRESERVED_CHARACTERS"
  by (rule hex_unreserved) (simp add: is_hex_def)

lemma IPv4Address_chars: "IPv4Address lib h \<Longrightarrow> set h \<subseteq> set UNRESERVED_CHARACTERS"
proof
  fix c assume a: "IPv4Address lib h" and c: "c \<in> set h"
  from a have o: "list_all (parse_octet lib) (split_on 46 h)" by (simp add: IPv4Address_def)
  from c split_on_chars [of h 46] have "c = 46 \<or> (\<exists>x \<in> set (split_on 46 h). c \<in> set x)"
    by auto
  then show "c \<in> set UNRESERVED_CHARACTERS"
  proof
    assume "c = 46"
    then show ?thesis by (simp add: UNRESERVED_CHARACTERS_def u_def)
  next
    assume "\<exists>x \<in> set (split_on 46 h). c \<in> set x"
    then obtain x where x: "x \<in> set (split_on 46 h)" "c \<in> set x" by blast
    with o have "parse_octet lib x" by (simp add: list_all_iff)
    with x(2) have "is_digit c" by (auto simp: parse_octet_def list_all_iff)
    then show ?thesis by (rule digit_unreserved)
  qed
qed

lemma encode_host_chars:
  assumes e: "encode_host lib h = Inr r"
  shows "set r \<subseteq> set (UNRESERVED_CHARACTERS @ SUB_DELIMS @ [37]) \<or> ipv6_address lib r \<or>
     (list_all (\<lambda>b. b < 128) r \<and> (\<exists>s. idna_encode lib s = Some r))"
proof (cases "h = []")
  case True
  with e show ?thesis by (simp add: encode_host_def)
next
  case ne: False
  show ?thesis
  proof (cases "match_items IPv4_STYLE_HOSTNAME h")
    case True
    with e ne have "IPv4Address lib h" "r = h" by (auto simp: encode_host_def split: if_splits)
    with IPv4Address_chars show ?thesis by auto
  next
    case v4: False
    show ?thesis
    proof (cases "IPv6_STYLE_HOSTNAME_match h")
      case True
      with e ne v4 show ?thesis by (auto simp: encode_host_def split: if_splits)
    next
      case v6: False
      show ?thesis
      proof (cases "list_all (\<lambda>c. c \<le> 127) h")
        case True
        with e ne v4 v6 have "quote (py_lower lib h) SUB_DELIMS = Inr r"
          by (simp add: encode_host_def)
        from quote_set [OF this] show ?thesis by simp
      next
        case False
        with e ne v4 v6 show ?thesis
          by (auto simp: encode_host_def split: option.splits if_splits)
      qed
    qed
  qed
qed

lemma validate_kwargs_value:
  "validate_kwargs kw = Inr x \<Longrightarrow> map_of kw k = Some (Some v) \<Longrightarrow>
   COMPONENT_REGEX_fullmatch k v"
proof (induction kw)
  case Nil
  then show ?case by simp
next
  case (Cons a kw)
  obtain key w where a: "a = (key, w)" by (cases a)
  from Cons.prems(1) a have r: "validate_kwargs kw = Inr x"
    by (auto split: if_splits option.splits)
  show ?case
  proof (cases "key = k")
    case True
    with Cons.prems a show ?thesis by (auto split: if_splits)
  next
    case False
    with Cons.prems(2) a have "map_of kw k = Some (Some v)" by simp
    from Cons.IH [OF r this] show ?thesis .
  qed
qed

lemma prepare_kwargs_valid:
  "prepare_kwargs kw = Inr kw' \<Longrightarrow> validate_kwargs kw' = Inr ()"
  by (auto simp: prepare_kwargs_def bind_Inr_iff)

lemma match_scheme_shape:
  "fst (match_scheme url) = Some s \<Longrightarrow> list_all is_scheme_char s"
proof -
  assume "fst (match_scheme url) = Some s"
  then obtain c cs where "is_alpha c" and s: "s = c # takeWhile is_scheme_char cs"
    by (auto simp: match_scheme_def split: list.splits if_splits)
  then have "is_scheme_char c" by (simp add: is_scheme_char_def)
  moreover have "list_all is_scheme_char (takeWhile is_scheme_char cs)"
    by (auto simp: list_all_iff dest: set_takeWhileD)
  ultimately show ?thesis by (simp add: s)
qed

lemma g_scheme_match: "g_scheme (URL_REGEX_match url) = fst (match_scheme url)"
  by (simp add: URL_REGEX_match_def split: prod.splits)

lemma merged_scheme_shape:
  assumes p: "prepare_kwargs kw = Inr kw'"
  shows "list_all is_scheme_char (c_scheme (merge_components url kw'))"
proof -
  have s: "c_scheme (merge_components url kw') =
      or_empty (dict_get kw' ''scheme'' (g_scheme (URL_REGEX_match url)))"
    by (simp add: merge_components_def Let_def)
  show ?thesis
  proof (cases "map_of kw' ''scheme''")
    case None
    then have "c_scheme (merge_components url kw') = or_empty (fst (match_scheme url))"
      by (simp add: s dict_get_def g_scheme_match)
    with match_scheme_shape [of url] show ?thesis
      by (cases "fst (match_scheme url)") (simp_all add: or_empty_def)
  next
    case (Some w)
    show ?thesis
    proof (cases w)
      case None
      with Some show ?thesis by (simp add: s dict_get_def or_empty_def)
    next
      case (Some v)
      with \<open>map_of kw' ''scheme'' = Some w\<close> have m: "map_of kw' ''scheme'' = Some (Some v)" by simp
      from validate_kwargs_value [OF prepare_kwargs_valid [OF p] m]
      have "list_all is_scheme_char v"
        by (auto simp: COMPONENT_REGEX_fullmatch_def is_scheme_char_def split: list.splits)
      with m show ?thesis by (simp add: s dict_get_def or_empty_def)
    qed
  qed
qed

lemma py_lower_scheme:
  "list_all is_scheme_char s \<Longrightarrow>
   list_all (\<lambda>c. is_scheme_char c \<and> \<not> (65 \<le> c \<and> c \<le> 90)) (py_lower lib s)"
proof -
  assume a: "list_all is_scheme_char s"
  then have "list_all (\<lambda>c. c < 128) s"
    by (auto simp: list_all_iff is_scheme_char_def is_alpha_def is_digit_def)
  then have "py_lower lib s = map ascii_lower s" by (simp add: py_lower_def)
  with a show ?thesis
    by (auto simp: list_all_iff ascii_lower_def is_scheme_char_def is_alpha_def is_digit_def)
qed


lemma allowed_chars_printable:
  "list_all (\<lambda>c. 33 \<le> c \<and> c \<le> 126) (UNRESERVED_CHARACTERS @ SUB_DELIMS @ u '':@/?%'')"
  by (simp add: UNRESERVED_CHARACTERS_def SUB_DELIMS_def u_def)

lemma urlparse_chars:
  assumes p: "urlparse lib url kw = Inr r"
  shows "list_all (\<lambda>c. is_scheme_char c \<and> \<not> (65 \<le> c \<and> c \<le> 90)) (scheme r) \<and>
      set (userinfo r) \<subseteq> set (UNRESERVED_CHARACTERS @ SUB_DELIMS @ u '':%'') \<and>
      (set (host r) \<subseteq> set (UNRESERVED_CHARACTERS @ SUB_DELIMS @ u ''%'') \<or>
       ipv6_address lib (host r) \<or>
       (list_all (\<lambda>b. b < 128) (host r) \<and> (\<exists>s. idna_encode lib s = Some (host r)))) \<and>
      set (path r) \<subseteq> set (UNRESERVED_CHARACTERS @ SUB_DELIMS @ u '':@/%'') \<and>
      (\<forall>q. query r = Some q \<longrightarrow> set q \<subseteq> set (UNRESERVED_CHARACTERS @ SUB_DELIMS @ u ''/?%'')) \<and>
      (\<forall>f. fragment r = Some f \<longrightarrow> set f \<subseteq> set (UNRESERVED_CHARACTERS @ SUB_DELIMS @ u ''/?%''))"
proof -
  from urlparse_InrD [OF p] obtain kw' where
    pk: "prepare_kwargs kw = Inr kw'" and
    n: "normalize_components lib (merge_components url kw') = Inr r" by blast
  let ?c = "merge_components url kw'"
  from normalize_components_InrD [OF n] obtain p1 where
    us: "quote (c_userinfo ?c) (SUB_DELIMS @ u '':'') = Inr (userinfo r)" and
    ho: "encode_host lib (c_host ?c) = Inr (host r)" and
    qp: "quote p1 (SUB_DELIMS @ u '':@/'') = Inr (path r)" and
    qq: "quote_opt (c_query ?c) (SUB_DELIMS @ u ''/?'') = Inr (query r)" and
    qf: "quote_opt (c_fragment ?c) (SUB_DELIMS @ u ''/?'') = Inr (fragment r)" and
    sc: "scheme r = py_lower lib (c_scheme ?c)"
    by blast
  have 1: "list_all (\<lambda>c. is_scheme_char c \<and> \<not> (65 \<le> c \<and> c \<le> 90)) (scheme r)"
    unfolding sc by (rule py_lower_scheme [OF merged_scheme_shape [OF pk]])
  have 2: "set (userinfo r) \<subseteq> set (UNRESERVED_CHARACTERS @ SUB_DELIMS @ u '':%'')"
    using quote_set [OF us] by (simp add: u_def)
  have 3: "set (host r) \<subseteq> set (UNRESERVED_CHARACTERS @ SUB_DELIMS @ u ''%'') \<or>
       ipv6_address lib (host r) \<or>
       (list_all (\<lambda>b. b < 128) (host r) \<and> (\<exists>s. idna_encode lib s = Some (host r)))"
    using encode_host_chars [OF ho] by (simp add: u_def)
  have 4: "set (path r) \<subseteq> set (UNRESERVED_CHARACTERS @ SUB_DELIMS @ u '':@/%'')"
    using quote_set [OF qp] by (simp add: u_def)
  have 5: "set q \<subseteq> set (UNRESERVED_CHARACTERS @ SUB_DELIMS @ u ''/?%'')" if "query r = Some q" for q
    using quote_opt_set [OF qq that] by (simp add: u_def)
  have 6: "set f \<subseteq> set (UNRESERVED_CHARACTERS @ SUB_DELIMS @ u ''/?%'')" if "fragment r = Some f" for f
    using quote_opt_set [OF qf that] by (simp add: u_def)
  from 1 2 3 4 5 6 show ?thesis by blast
qed

text \<open>
  C3: the claim, like the comments at lines 253 to 254 and 270 of the source, says
  that every field of a result holds only printable ASCII characters. The code does
  not keep it for a bracketed host: \<open>encode_host\<close> (lines 299 to 312) returns such
  a host without its brackets, as it was written and without quoting it, whenever
  \<open>IPv6Address\<close> accepts it. With a library that accepts a zone identifier, as
  \<open>ipaddress\<close> does, \<open>urlparse\<close> succeeds on \<open>"http://[fe80::1%e]/"\<close>,
  where \<open>e\<close> stands for the character U+00E9 (233), and the host of the result
  holds that character, which is not a printable ASCII character.
\<close>

theorem C3_zone_id_host:
  "urlparse zone_lib (u ''http://[fe80::1%'' @ [233] @ u '']/'') [] =
     Inr \<lparr>scheme = u ''http'', userinfo = [], host = u ''fe80::1%'' @ [233], port = None,
          path = u ''/'', query = None, fragment = None\<rparr> \<and>
   \<not> list_all (\<lambda>c. 32 \<le> c \<and> c \<le> 126) (u ''fe80::1%'' @ [233])"
  by (simp add: ev zone_lib_def strict_lib_def)

subsection \<open>The canonical string, parsed again\<close>

text \<open>A run of a character class ends where the class does.\<close>

lemma takeWhile_stop:
  "list_all P xs \<Longrightarrow> ys = [] \<or> \<not> P (hd ys) \<Longrightarrow> takeWhile P (xs @ ys) = xs"
  by (cases ys) (auto simp: list_all_iff takeWhile_append2)

lemma dropWhile_stop:
  "list_all P xs \<Longrightarrow> ys = [] \<or> \<not> P (hd ys) \<Longrightarrow> dropWhile P (xs @ ys) = ys"
  by (cases ys) (auto simp: list_all_iff dropWhile_append2)

text \<open>
  The groups of \<open>URL_REGEX\<close> on a canonical string are the fields it was written
  from, when the fields have the characters of their groups, the path does not read as
  an authority and the string does not read a scheme that is not there.
\<close>

lemma match_tail:
  assumes q: "\<forall>x. qu = Some x \<longrightarrow> 35 \<notin> set x"
    and f: "\<forall>x. fr = Some x \<longrightarrow> 10 \<notin> set x"
    and p: "list_all is_path_char p"
  shows "takeWhile is_path_char
           (p @ (case qu of None \<Rightarrow> [] | Some x \<Rightarrow> 63 # x) @
                (case fr of None \<Rightarrow> [] | Some x \<Rightarrow> 35 # x)) = p"
    and "match_query (dropWhile is_path_char
           (p @ (case qu of None \<Rightarrow> [] | Some x \<Rightarrow> 63 # x) @
                (case fr of None \<Rightarrow> [] | Some x \<Rightarrow> 35 # x))) =
         (qu, case fr of None \<Rightarrow> [] | Some x \<Rightarrow> 35 # x)"
    and "match_fragment (case fr of None \<Rightarrow> [] | Some x \<Rightarrow> 35 # x) = fr"
proof -
  let ?t = "(case qu of None \<Rightarrow> [] | Some x \<Rightarrow> 63 # x) @
            (case fr of None \<Rightarrow> [] | Some x \<Rightarrow> 35 # x)"
  have st: "?t = [] \<or> \<not> is_path_char (hd ?t)"
    by (auto simp: is_path_char_def split: option.splits)
  show "takeWhile is_path_char (p @ ?t) = p" by (rule takeWhile_stop [OF p st])
  have d: "dropWhile is_path_char (p @ ?t) = ?t" by (rule dropWhile_stop [OF p st])
  show "match_query (dropWhile is_path_char (p @ ?t)) =
         (qu, case fr of None \<Rightarrow> [] | Some x \<Rightarrow> 35 # x)"
  proof (cases qu)
    case None
    then show ?thesis unfolding d by (auto simp: match_query_def split: option.splits)
  next
    case (Some x)
    with q have x: "list_all (\<lambda>c. c \<noteq> 35) x" by (auto simp: list_all_iff)
    have s: "(case fr of None \<Rightarrow> [] | Some x \<Rightarrow> 35 # x) = [] \<or>
        \<not> (hd (case fr of None \<Rightarrow> [] | Some x \<Rightarrow> 35 # x) \<noteq> 35)"
      by (auto split: option.splits)
    from takeWhile_stop [OF x s] dropWhile_stop [OF x s] Some show ?thesis
      unfolding d by (simp add: match_query_def)
  qed
  show "match_fragment (case fr of None \<Rightarrow> [] | Some x \<Rightarrow> 35 # x) = fr"
  proof (cases fr)
    case None
    then show ?thesis by (simp add: match_fragment_def)
  next
    case (Some x)
    with f have "list_all (\<lambda>c. c \<noteq> 10) x" by (auto simp: list_all_iff)
    from takeWhile_stop [OF this, of "[]"] Some show ?thesis
      by (simp add: match_fragment_def)
  qed
qed

lemma match_scheme_Some:
  assumes "is_alpha a" and "list_all is_scheme_char s"
  shows "match_scheme (a # s @ 58 # rest) = (Some (a # s), rest)"
proof -
  have st: "58 # rest = [] \<or> \<not> is_scheme_char (hd (58 # rest))"
    by (simp add: is_scheme_char_def is_alpha_def is_digit_def)
  from takeWhile_stop [OF assms(2) st] dropWhile_stop [OF assms(2) st] assms(1)
  show ?thesis by (simp add: match_scheme_def)
qed

lemma match_scheme_None_snd: "fst (match_scheme s) = None \<Longrightarrow> match_scheme s = (None, s)"
proof (cases s)
  case Nil
  then show ?thesis by (simp add: match_scheme_def)
next
  case (Cons c cs)
  assume a: "fst (match_scheme s) = None"
  show ?thesis
  proof (cases "dropWhile is_scheme_char cs")
    case Nil
    with Cons show ?thesis by (simp add: match_scheme_def del: dropWhile_eq_Nil_conv)
  next
    case d: (Cons d rest)
    with Cons a show ?thesis by (simp add: match_scheme_def split: if_splits)
  qed
qed

lemma match_authority_Some:
  assumes "list_all is_authority_char a" and "rest = [] \<or> \<not> is_authority_char (hd rest)"
  shows "match_authority (47 # 47 # a @ rest) = (Some a, rest)"
  using takeWhile_stop [OF assms] dropWhile_stop [OF assms]
  by (simp add: match_authority_def)

lemma match_authority_None:
  "take 2 s \<noteq> [47, 47] \<Longrightarrow> match_authority s = (None, s)"
  by (auto simp: match_authority_def split: list.splits)

lemma URL_REGEX_to_str:
  assumes sch: "scheme r = [] \<or> (is_alpha (hd (scheme r)) \<and> list_all is_scheme_char (tl (scheme r)))"
    and au: "list_all is_authority_char (authority r)"
    and pa: "list_all is_path_char (path r)"
    and pabs: "authority r \<noteq> [] \<longrightarrow> path r = [] \<or> hd (path r) = 47"
    and h2: "authority r = [] \<longrightarrow> take 2 (path r) \<noteq> [47, 47]"
    and h3: "scheme r = [] \<longrightarrow> fst (match_scheme (to_str r)) = None"
    and q: "\<forall>x. query r = Some x \<longrightarrow> 35 \<notin> set x"
    and f: "\<forall>x. fragment r = Some x \<longrightarrow> 10 \<notin> set x"
  shows "URL_REGEX_match (to_str r) =
     \<lparr>g_scheme = (if scheme r = [] then None else Some (scheme r)),
      g_authority = (if authority r = [] then None else Some (authority r)),
      g_path = path r, g_query = query r, g_fragment = fragment r\<rparr>"
proof -
  let ?fr = "case fragment r of None \<Rightarrow> [] | Some x \<Rightarrow> 35 # x"
  let ?qf = "(case query r of None \<Rightarrow> [] | Some x \<Rightarrow> 63 # x) @ ?fr"
  let ?pt = "path r @ ?qf"
  let ?r1 = "(if authority r \<noteq> [] then [47, 47] @ authority r else []) @ ?pt"
  have ts: "to_str r = (if scheme r \<noteq> [] then scheme r @ [58] else []) @ ?r1"
    by (simp add: to_str_def)
  have qf: "?qf = [] \<or> hd ?qf = 63 \<or> hd ?qf = 35"
    by (auto split: option.splits)
  have s1: "match_scheme (to_str r) = (if scheme r = [] then None else Some (scheme r), ?r1)"
  proof (cases "scheme r = []")
    case False
    with sch obtain a s where as: "scheme r = a # s" "is_alpha a" "list_all is_scheme_char s"
      by (cases "scheme r") auto
    from match_scheme_Some [OF as(2) as(3), of ?r1] as(1) False show ?thesis
      unfolding ts by simp
  next
    case True
    with h3 have "fst (match_scheme (to_str r)) = None" by simp
    from match_scheme_None_snd [OF this] have "match_scheme (to_str r) = (None, to_str r)" .
    moreover from True have "to_str r = ?r1" unfolding ts by simp
    ultimately show ?thesis using True by simp
  qed
  have s2: "match_authority ?r1 = (if authority r = [] then None else Some (authority r), ?pt)"
  proof (cases "authority r = []")
    case False
    have "?pt = [] \<or> \<not> is_authority_char (hd ?pt)"
    proof (cases "path r")
      case Nil
      with qf show ?thesis by (auto simp: is_authority_char_def)
    next
      case (Cons c cs)
      with pabs False show ?thesis by (simp add: is_authority_char_def)
    qed
    from match_authority_Some [OF au this] False show ?thesis by simp
  next
    case True
    have "take 2 ?pt \<noteq> [47, 47]"
    proof (cases "path r")
      case Nil
      with qf show ?thesis by (cases ?qf) auto
    next
      case c: (Cons c cs)
      show ?thesis
      proof (cases cs)
        case Nil
        with c qf show ?thesis by (cases ?qf) auto
      next
        case (Cons d ds)
        with c h2 True show ?thesis by simp
      qed
    qed
    from match_authority_None [OF this] True show ?thesis by simp
  qed
  note t = match_tail [OF q f pa]
  show ?thesis
    unfolding URL_REGEX_match_def s1 by (simp add: s2 t)
qed

text \<open>The groups of \<open>AUTHORITY_REGEX\<close> on the authority of a result.\<close>

lemma match_userinfo_Some:
  "64 \<notin> set x \<Longrightarrow> match_userinfo (x @ 64 # rest) = (Some x, rest)"
proof -
  assume "64 \<notin> set x"
  then have x: "list_all (\<lambda>c. c \<noteq> 64) x" by (auto simp: list_all_iff)
  have st: "64 # rest = [] \<or> \<not> hd (64 # rest) \<noteq> 64" by simp
  from takeWhile_stop [OF x st] dropWhile_stop [OF x st] show ?thesis
    by (simp add: match_userinfo_def)
qed

lemma match_userinfo_None: "64 \<notin> set s \<Longrightarrow> match_userinfo s = (None, s)"
proof -
  assume "64 \<notin> set s"
  then have "dropWhile (\<lambda>c. c \<noteq> 64) s = []" by auto
  then show ?thesis by (simp add: match_userinfo_def del: dropWhile_eq_Nil_conv)
qed

lemma match_host_bracket:
  assumes h: "10 \<notin> set h" and p: "10 \<notin> set p" "93 \<notin> set p"
  shows "match_host ([91] @ h @ [93] @ p) = ([91] @ h @ [93], p)"
proof -
  let ?cs = "h @ 93 # p"
  from h p have "list_all (\<lambda>x. x \<noteq> 10) ?cs" by (auto simp: list_all_iff)
  from takeWhile_stop [OF this, of "[]"] have l: "takeWhile (\<lambda>x. x \<noteq> 10) ?cs = ?cs" by simp
  from p(2) have "list_all (\<lambda>c. c \<noteq> 93) (rev p)" by (auto simp: list_all_iff)
  from takeWhile_stop [OF this, of "93 # rev h"]
  have "takeWhile (\<lambda>c. c \<noteq> 93) (rev ?cs) = rev p" by simp
  then have n: "upto_last_bracket ?cs = Suc (length h)"
    by (simp add: upto_last_bracket_def)
  show ?thesis by (simp add: match_host_def l n)
qed

lemma match_host_plain:
  assumes h: "58 \<notin> set h" "h = [] \<or> hd h \<noteq> 91" and p: "p = [] \<or> hd p = 58"
  shows "match_host (h @ p) = (h, p)"
proof (cases "h @ p")
  case Nil
  then show ?thesis by (simp add: match_host_def)
next
  case (Cons c cs)
  from h(2) p Cons have c: "c \<noteq> 91" by (cases h) auto
  from h(1) have x: "list_all (\<lambda>x. x \<noteq> 58) h" by (auto simp: list_all_iff)
  from p have st: "p = [] \<or> \<not> hd p \<noteq> 58" by simp
  from takeWhile_stop [OF x st] dropWhile_stop [OF x st] c Cons show ?thesis
    by (simp add: match_host_def)
qed

lemma digits_of_digits: "list_all is_digit (digits_of n)"
proof (induction n rule: digits_of.induct)
  case (1 n)
  show ?case
  proof (cases "n < 10")
    case True
    then show ?thesis by (subst digits_of.simps) (simp add: is_digit_def)
  next
    case False
    have "n mod 10 < 10" by simp
    then have "is_digit (48 + n mod 10)" unfolding is_digit_def by linarith
    with False 1 show ?thesis by (subst digits_of.simps) simp
  qed
qed

lemma digits_of_not_Nil: "digits_of n \<noteq> []"
  by (subst digits_of.simps) simp

lemma py_str_int_chars: "list_all (\<lambda>c. is_digit c \<or> c = 45) (py_str_int n)"
  using digits_of_digits [of "nat n"] digits_of_digits [of "nat (- n)"]
  by (auto simp: py_str_int_def list_all_iff)

lemma py_str_int_not_Nil: "py_str_int n \<noteq> []"
  by (simp add: py_str_int_def digits_of_not_Nil)

lemma match_port_line: "10 \<notin> set ds \<Longrightarrow> match_port (58 # ds) = Some ds"
proof -
  assume "10 \<notin> set ds"
  then have "list_all (\<lambda>x. x \<noteq> 10) ds" by (auto simp: list_all_iff)
  from takeWhile_stop [OF this, of "[]"] show ?thesis by (simp add: match_port_def)
qed

lemma port_chars:
  "set (case p of None \<Rightarrow> [] | Some n \<Rightarrow> 58 # py_str_int n) \<subseteq> {58, 45} \<union> {c. is_digit c}"
  using py_str_int_chars by (cases p) (auto simp: list_all_iff)

lemma AUTHORITY_REGEX_authority:
  assumes ui: "64 \<notin> set (userinfo r)"
    and h1: "64 \<notin> set (host r)" and h2: "10 \<notin> set (host r)"
    and h3: "58 \<notin> set (host r) \<longrightarrow> host r = [] \<or> hd (host r) \<noteq> 91"
  shows "AUTHORITY_REGEX_match (authority r) =
     \<lparr>a_userinfo = (if userinfo r = [] then None else Some (userinfo r)),
      a_host = (if 58 \<in> set (host r) then [91] @ host r @ [93] else host r),
      a_port = Some (case port r of None \<Rightarrow> [] | Some n \<Rightarrow> py_str_int n)\<rparr>"
proof -
  let ?H = "if 58 \<in> set (host r) then [91] @ host r @ [93] else host r"
  let ?P = "case port r of None \<Rightarrow> [] | Some n \<Rightarrow> 58 # py_str_int n"
  have au: "authority r = (if userinfo r \<noteq> [] then userinfo r @ [64] else []) @ ?H @ ?P"
    by (simp add: authority_def)
  from port_chars [of "port r"]
  have p64: "64 \<notin> set ?P" and p10: "10 \<notin> set ?P" and p93: "93 \<notin> set ?P"
    by (auto simp: is_digit_def)
  have m1: "match_userinfo (authority r) =
      (if userinfo r = [] then None else Some (userinfo r), ?H @ ?P)"
  proof (cases "userinfo r = []")
    case True
    from h1 p64 have "64 \<notin> set (?H @ ?P)" by auto
    from match_userinfo_None [OF this] True show ?thesis unfolding au by simp
  next
    case False
    from match_userinfo_Some [OF ui, of "?H @ ?P"] False show ?thesis unfolding au by simp
  qed
  have m2: "match_host (?H @ ?P) = (?H, ?P)"
  proof (cases "58 \<in> set (host r)")
    case True
    from match_host_bracket [OF h2 p10 p93] True show ?thesis by simp
  next
    case False
    have "?P = [] \<or> hd ?P = 58" by (auto split: option.splits)
    from match_host_plain [OF False _ this] h3 False show ?thesis by simp
  qed
  have m3: "match_port ?P = Some (case port r of None \<Rightarrow> [] | Some n \<Rightarrow> py_str_int n)"
  proof (cases "port r")
    case None
    then show ?thesis by (simp add: match_port_def)
  next
    case (Some n)
    from py_str_int_chars [of n] have "10 \<notin> set (py_str_int n)"
      by (auto simp: list_all_iff is_digit_def)
    from match_port_line [OF this] Some show ?thesis by simp
  qed
  show ?thesis unfolding AUTHORITY_REGEX_match_def m1 by (simp add: m2 m3)
qed

text \<open>\<open>int\<close> reads back the decimal form of a port between 0 and 65535.\<close>

lemma dec_value_snoc: "dec_value (xs @ [c]) = 10 * dec_value xs + (c - 48)"
  by (simp add: dec_value_def)

lemma dec_value_digits_of: "dec_value (digits_of n) = n"
proof (induction n rule: digits_of.induct)
  case (1 n)
  show ?case
  proof (cases "n < 10")
    case True
    then show ?thesis by (subst digits_of.simps) (simp add: dec_value_def)
  next
    case False
    with 1 have "dec_value (digits_of (n div 10)) = n div 10" by simp
    with False show ?thesis by (subst digits_of.simps) (simp add: dec_value_snoc)
  qed
qed

lemma length_digits_of: "n < 10 ^ Suc k \<Longrightarrow> length (digits_of n) \<le> Suc k"
proof (induction k arbitrary: n)
  case 0
  then show ?case by (subst digits_of.simps) simp
next
  case (Suc k)
  show ?case
  proof (cases "n < 10")
    case True
    then show ?thesis by (subst digits_of.simps) simp
  next
    case False
    from Suc.prems have "n div 10 < 10 ^ Suc k" by (simp add: less_mult_imp_div_less)
    from Suc.IH [OF this] False show ?thesis by (subst digits_of.simps) simp
  qed
qed

lemma py_int_py_str_int:
  assumes "0 \<le> n" and "n < 65536"
  shows "py_int lib (py_str_int n) = Some n"
proof -
  from assms have s: "py_str_int n = digits_of (nat n)" by (simp add: py_str_int_def)
  from assms have "nat n < 10 ^ Suc 4" by simp
  from length_digits_of [OF this] have "length (digits_of (nat n)) \<le> 4300" by simp
  with digits_of_digits [of "nat n"] digits_of_not_Nil [of "nat n"] assms(1) show ?thesis
    unfolding s by (simp add: py_int_def dec_value_digits_of)
qed

lemma normalize_port_printed:
  assumes "\<forall>n. p = Some n \<longrightarrow>
      default_port s \<noteq> Some n \<and> (n < 0 \<or> 65535 < n \<longrightarrow> py_int lib (py_str_int n) = Some n)"
  shows "normalize_port lib (Some (case p of None \<Rightarrow> [] | Some n \<Rightarrow> py_str_int n)) s = Inr p"
proof (cases p)
  case None
  then show ?thesis by (simp add: normalize_port_def)
next
  case (Some n)
  with assms have d: "default_port s \<noteq> Some n"
    and o: "n < 0 \<or> 65535 < n \<longrightarrow> py_int lib (py_str_int n) = Some n" by auto
  have "py_int lib (py_str_int n) = Some n"
  proof (cases "n < 0 \<or> 65535 < n")
    case True
    with o show ?thesis by simp
  next
    case False
    then have "0 \<le> n" "n < 65536" by auto
    then show ?thesis by (rule py_int_py_str_int)
  qed
  with d py_str_int_not_Nil [of n] Some show ?thesis
    by (auto simp: normalize_port_def)
qed

text \<open>A path without dot segments is left as it is, and quoting adds no dot segment.\<close>

lemma split_on_not_Nil: "split_on d s \<noteq> []"
  by (induction s) (auto split: list.splits)

lemma join_with_Cons_Cons: "join_with d ((c # x) # xs) = c # join_with d (x # xs)"
  by (cases xs) simp_all

lemma join_split: "join_with d (split_on d s) = s"
proof (induction s)
  case Nil
  then show ?case by simp
next
  case (Cons c cs)
  obtain x xs where x: "split_on d cs = x # xs"
    using split_on_not_Nil [of d cs] by (cases "split_on d cs") auto
  with Cons show ?case by (auto simp: join_with_Cons_Cons)
qed

lemma split_on_no_sep: "x \<in> set (split_on d s) \<Longrightarrow> d \<notin> set x"
proof (induction s arbitrary: x)
  case Nil
  then show ?case by simp
next
  case (Cons c cs)
  obtain y ys where y: "split_on d cs = y # ys"
    using split_on_not_Nil [of d cs] by (cases "split_on d cs") auto
  with Cons show ?case by (auto split: if_splits)
qed

lemma split_on_prepend:
  "d \<notin> set x \<Longrightarrow> split_on d (x @ s) = (x @ hd (split_on d s)) # tl (split_on d s)"
proof (induction x)
  case Nil
  then show ?case using split_on_not_Nil [of d s] by simp
next
  case (Cons c x)
  then show ?case by simp
qed

lemma split_join:
  "out \<noteq> [] \<Longrightarrow> \<forall>x \<in> set out. d \<notin> set x \<Longrightarrow> split_on d (join_with d out) = out"
proof (induction d out rule: join_with.induct)
  case (1 d)
  then show ?case by simp
next
  case (2 d x)
  then have "d \<notin> set x" by simp
  from split_on_prepend [OF this, of "[]"] show ?case by simp
next
  case (3 d x y ys)
  then have x: "d \<notin> set x" and r: "split_on d (join_with d (y # ys)) = y # ys" by auto
  from split_on_prepend [OF x, of "d # join_with d (y # ys)"] r show ?case by simp
qed

lemma foldl_dot_step_plain:
  "u ''.'' \<notin> set xs \<Longrightarrow> u ''..'' \<notin> set xs \<Longrightarrow> foldl dot_step acc xs = acc @ xs"
  by (induction xs arbitrary: acc) (auto simp: dot_step_def)

lemma normalize_path_plain:
  "u ''.'' \<notin> set (split_on 47 p) \<Longrightarrow> u ''..'' \<notin> set (split_on 47 p) \<Longrightarrow>
   normalize_path p = p"
  by (simp add: normalize_path_def foldl_dot_step_plain join_split)

lemma dot_step_set:
  "set (dot_step out c) \<subseteq> set out \<union> ({c} - {u ''.'', u ''..''})"
  by (auto simp: dot_step_def dest: in_set_butlastD)

lemma foldl_dot_step_set:
  "set (foldl dot_step out cs) \<subseteq> set out \<union> (set cs - {u ''.'', u ''..''})"
proof (induction cs arbitrary: out)
  case Nil
  then show ?case by simp
next
  case (Cons c cs)
  from Cons.IH [of "dot_step out c"] dot_step_set [of out c] show ?case by auto
qed

lemma normalize_path_no_dots:
  "u ''.'' \<notin> set (split_on 47 (normalize_path p)) \<and>
   u ''..'' \<notin> set (split_on 47 (normalize_path p))"
proof -
  let ?out = "foldl dot_step [] (split_on 47 p)"
  from foldl_dot_step_set [of "[]" "split_on 47 p"]
  have s: "set ?out \<subseteq> set (split_on 47 p) - {u ''.'', u ''..''}" by simp
  show ?thesis
  proof (cases "?out = []")
    case True
    then show ?thesis by (simp add: normalize_path_def u_def)
  next
    case False
    from s split_on_no_sep have "\<forall>x \<in> set ?out. 47 \<notin> set x" by blast
    from split_join [OF False this] s show ?thesis by (auto simp: normalize_path_def)
  qed
qed

lemma utf8_not_Nil: "utf8 c = Inr bs \<Longrightarrow> bs \<noteq> []"
  by (auto simp: utf8_def split: if_splits)

lemma percent_encode_head: "percent_encode c = Inr x \<Longrightarrow> x \<noteq> [] \<and> hd x = 37"
proof -
  assume "percent_encode c = Inr x"
  then obtain bs where b: "utf8 c = Inr bs" and
    e: "x = concat (map (\<lambda>b. [37, hex_upper (b div 16), hex_upper (b mod 16)]) bs)"
    by (auto simp: percent_encode_def bind_Inr_iff)
  from utf8_not_Nil [OF b] obtain b0 bs' where "bs = b0 # bs'" by (cases bs) auto
  with e show ?thesis by simp
qed

lemma slash_not_unreserved: "47 \<notin> set UNRESERVED_CHARACTERS"
  by (simp add: UNRESERVED_CHARACTERS_def u_def)

lemma quote_char_facts:
  assumes "(if c \<in> set ok then Inr [c] else percent_encode c) = Inr x"
  shows "x \<noteq> []" and "c \<noteq> 47 \<Longrightarrow> 47 \<notin> set x" and "hd x = 46 \<Longrightarrow> c = 46 \<and> x = [46]"
proof -
  show "x \<noteq> []" using assms percent_encode_head by (auto split: if_splits)
  show "47 \<notin> set x" if "c \<noteq> 47"
  proof (cases "c \<in> set ok")
    case True
    with assms that show ?thesis by auto
  next
    case False
    with assms have "percent_encode c = Inr x" by simp
    from percent_encode_chars [OF this] slash_not_unreserved show ?thesis by auto
  qed
  show "c = 46 \<and> x = [46]" if "hd x = 46"
  proof (cases "c \<in> set ok")
    case True
    with assms that show ?thesis by auto
  next
    case False
    with assms have "percent_encode c = Inr x" by simp
    from percent_encode_head [OF this] that show ?thesis by simp
  qed
qed

lemma quote_chars_all_dots:
  "quote_chars ok x = Inr y \<Longrightarrow> list_all (\<lambda>c. c = 46) y \<Longrightarrow> x = y"
proof (induction x arbitrary: y)
  case Nil
  then show ?case by simp
next
  case (Cons c cs)
  from Cons.prems(1) obtain e ys where
    e: "(if c \<in> set ok then Inr [c] else percent_encode c) = Inr e" and
    ys: "quote_chars ok cs = Inr ys" and y: "y = e @ ys"
    by (auto simp: bind_Inr_iff)
  from quote_char_facts(1) [OF e] obtain a es where a: "e = a # es" by (cases e) auto
  with y Cons.prems(2) have "hd e = 46" by simp
  from quote_char_facts(3) [OF e this] have c: "c = 46" "e = [46]" by auto
  from y Cons.prems(2) have "list_all (\<lambda>c. c = 46) ys" by simp
  from Cons.IH [OF ys this] c y show ?case by simp
qed

lemma quote_chars_split:
  "quote_chars ok p = Inr q \<Longrightarrow> 47 \<in> set ok \<Longrightarrow>
   list_all2 (\<lambda>x y. quote_chars ok x = Inr y) (split_on 47 p) (split_on 47 q)"
proof (induction p arbitrary: q)
  case Nil
  then show ?case by simp
next
  case (Cons c cs)
  from Cons.prems(1) obtain e q' where
    e: "(if c \<in> set ok then Inr [c] else percent_encode c) = Inr e" and
    q': "quote_chars ok cs = Inr q'" and q: "q = e @ q'"
    by (auto simp: bind_Inr_iff)
  note ih = Cons.IH [OF q' Cons.prems(2)]
  show ?case
  proof (cases "c = 47")
    case True
    with e Cons.prems(2) have "e = [47]" by simp
    with True q ih show ?thesis by simp
  next
    case False
    obtain a as where a: "split_on 47 cs = a # as"
      using split_on_not_Nil [of 47 cs] by (cases "split_on 47 cs") auto
    obtain b bs where b: "split_on 47 q' = b # bs"
      using split_on_not_Nil [of 47 q'] by (cases "split_on 47 q'") auto
    from ih a b have r: "quote_chars ok a = Inr b" and rs:
      "list_all2 (\<lambda>x y. quote_chars ok x = Inr y) as bs" by auto
    from quote_char_facts(2) [OF e False] have "47 \<notin> set e" .
    from split_on_prepend [OF this, of q'] b q have sq: "split_on 47 q = (e @ b) # bs" by simp
    from False a have sp: "split_on 47 (c # cs) = (c # a) # as" by simp
    from e r have "quote_chars ok (c # a) = Inr (e @ b)" by (simp add: bind_def)
    with rs show ?thesis unfolding sq sp by simp
  qed
qed

lemma list_all2_set2:
  "list_all2 R xs ys \<Longrightarrow> y \<in> set ys \<Longrightarrow> \<exists>x \<in> set xs. R x y"
  by (induction rule: list_all2_induct) auto

lemma quote_chars_no_dots:
  assumes q: "quote_chars ok p = Inr q" and ok: "47 \<in> set ok"
    and d: "u ''.'' \<notin> set (split_on 47 p)" "u ''..'' \<notin> set (split_on 47 p)"
  shows "u ''.'' \<notin> set (split_on 47 q) \<and> u ''..'' \<notin> set (split_on 47 q)"
proof -
  note l = quote_chars_split [OF q ok]
  have "y \<in> set (split_on 47 p)" if y: "y \<in> set (split_on 47 q)" "list_all (\<lambda>c. c = 46) y" for y
  proof -
    from list_all2_set2 [OF l y(1)] obtain x where
      x: "x \<in> set (split_on 47 p)" "quote_chars ok x = Inr y" by blast
    from quote_chars_all_dots [OF x(2) y(2)] x(1) show ?thesis by simp
  qed
  from this [of "u ''.''"] this [of "u ''..''"] d show ?thesis by (auto simp: u_def)
qed

lemma quote_normalized:
  assumes q: "quote (normalize_path p) safe = Inr t" and s: "47 \<in> set safe"
  shows "normalize_path t = t"
proof -
  from q have qc: "quote_chars (NON_ESCAPED_CHARS (normalize_path p) safe) (normalize_path p)
      = Inr t" by (simp add: quote_def)
  from s have "47 \<in> set (NON_ESCAPED_CHARS (normalize_path p) safe)"
    by (simp add: NON_ESCAPED_CHARS_def)
  from quote_chars_no_dots [OF qc this] normalize_path_no_dots [of p]
  show ?thesis by (simp add: normalize_path_plain)
qed

text \<open>The characters of the quoted fields stay inside their groups.\<close>

lemma userinfo_table:
  "list_all (\<lambda>c. is_authority_char c \<and> c \<noteq> 64 \<and> \<not> is_ascii_control c)
     (UNRESERVED_CHARACTERS @ (SUB_DELIMS @ u '':'') @ [37])"
  by (simp add: UNRESERVED_CHARACTERS_def SUB_DELIMS_def u_def is_authority_char_def
      is_ascii_control_def)

lemma host_table:
  "list_all (\<lambda>c. is_authority_char c \<and> c \<noteq> 64 \<and> c \<noteq> 10 \<and> c \<noteq> 91 \<and> \<not> is_ascii_control c)
     (UNRESERVED_CHARACTERS @ SUB_DELIMS @ [37])"
  by (simp add: UNRESERVED_CHARACTERS_def SUB_DELIMS_def u_def is_authority_char_def
      is_ascii_control_def)

lemma path_table:
  "list_all (\<lambda>c. is_path_char c \<and> \<not> is_ascii_control c)
     (UNRESERVED_CHARACTERS @ (SUB_DELIMS @ u '':@/'') @ [37])"
  by (simp add: UNRESERVED_CHARACTERS_def SUB_DELIMS_def u_def is_path_char_def
      is_ascii_control_def)

lemma query_table:
  "list_all (\<lambda>c. c \<noteq> 35 \<and> c \<noteq> 10 \<and> \<not> is_ascii_control c)
     (UNRESERVED_CHARACTERS @ (SUB_DELIMS @ u ''/?'') @ [37])"
  by (simp add: UNRESERVED_CHARACTERS_def SUB_DELIMS_def u_def is_ascii_control_def)

lemma port_table:
  "c \<in> {58, 45} \<union> {c. is_digit c} \<Longrightarrow> is_authority_char c \<and> \<not> is_ascii_control c"
  by (auto simp: is_authority_char_def is_ascii_control_def is_digit_def)

lemma scheme_table: "is_scheme_char c \<Longrightarrow> \<not> is_ascii_control c"
  by (auto simp: is_scheme_char_def is_alpha_def is_digit_def is_ascii_control_def)

lemma list_all_subset: "set xs \<subseteq> set T \<Longrightarrow> list_all P T \<Longrightarrow> list_all P xs"
  by (auto simp: list_all_iff)

lemma encode_host_fixed_chars:
  assumes e: "encode_host lib h = Inr h"
  shows "set h \<subseteq> set (UNRESERVED_CHARACTERS @ SUB_DELIMS @ [37])"
proof -
  from encode_host_chars [OF e] consider
    "set h \<subseteq> set (UNRESERVED_CHARACTERS @ SUB_DELIMS @ [37])" |
    "ipv6_address lib h \<or> (list_all (\<lambda>b. b < 128) h \<and> (\<exists>s. idna_encode lib s = Some h))"
    by blast
  then show ?thesis
  proof cases
    case 1
    then show ?thesis .
  next
    case 2
    show ?thesis
    proof (cases "h = []")
      case True
      then show ?thesis by simp
    next
      case ne: False
      show ?thesis
      proof (cases "match_items IPv4_STYLE_HOSTNAME h")
        case True
        with e ne have "IPv4Address lib h" by (auto simp: encode_host_def split: if_splits)
        from IPv4Address_chars [OF this] show ?thesis by auto
      next
        case v4: False
        show ?thesis
        proof (cases "IPv6_STYLE_HOSTNAME_match h")
          case True
          with e ne v4 have "butlast (tl h) = h" by (auto simp: encode_host_def split: if_splits)
          then have "length (butlast (tl h)) = length h" by simp
          with ne show ?thesis by (cases h) auto
        next
          case v6: False
          show ?thesis
          proof (cases "list_all (\<lambda>c. c \<le> 127) h")
            case True
            with e ne v4 v6 have "quote (py_lower lib h) SUB_DELIMS = Inr h"
              by (simp add: encode_host_def)
            from quote_set [OF this] show ?thesis .
          next
            case False
            with e ne v4 v6 have "list_all (\<lambda>b. b < 128) h"
              by (auto simp: encode_host_def split: option.splits if_splits)
            with False show ?thesis by (auto simp: list_all_iff)
          qed
        qed
      qed
    qed
  qed
qed

lemma host_facts:
  assumes H5: "encode_host lib (if 58 \<in> set (host r) then [91] @ host r @ [93] else host r) =
      Inr (host r)"
    and H6: "58 \<in> set (host r) \<longrightarrow>
      list_all (\<lambda>c. \<not> is_ascii_control c \<and> c \<notin> set (u ''@/?#'')) (host r)"
  shows "list_all (\<lambda>c. is_authority_char c \<and> c \<noteq> 64 \<and> \<not> is_ascii_control c) (host r)"
    and "58 \<notin> set (host r) \<longrightarrow> host r = [] \<or> hd (host r) \<noteq> 91"
proof -
  have a: "list_all (\<lambda>c. is_authority_char c \<and> c \<noteq> 64 \<and> c \<noteq> 10 \<and> c \<noteq> 91 \<and>
      \<not> is_ascii_control c) (host r)" if n: "58 \<notin> set (host r)"
  proof -
    from H5 n have "encode_host lib (host r) = Inr (host r)" by simp
    from list_all_subset [OF encode_host_fixed_chars [OF this] host_table] show ?thesis .
  qed
  show "list_all (\<lambda>c. is_authority_char c \<and> c \<noteq> 64 \<and> \<not> is_ascii_control c) (host r)"
  proof (cases "58 \<in> set (host r)")
    case True
    with H6 show ?thesis by (auto simp: list_all_iff is_authority_char_def u_def)
  next
    case False
    from a [OF this] show ?thesis by (auto simp: list_all_iff)
  qed
  show "58 \<notin> set (host r) \<longrightarrow> host r = [] \<or> hd (host r) \<noteq> 91"
  proof
    assume "58 \<notin> set (host r)"
    from a [OF this] show "host r = [] \<or> hd (host r) \<noteq> 91"
      by (cases "host r") auto
  qed
qed

lemma authority_chars:
  assumes ui: "list_all (\<lambda>c. is_authority_char c \<and> \<not> is_ascii_control c) (userinfo r)"
    and ho: "list_all (\<lambda>c. is_authority_char c \<and> \<not> is_ascii_control c) (host r)"
  shows "list_all (\<lambda>c. is_authority_char c \<and> \<not> is_ascii_control c) (authority r)"
proof -
  let ?P = "case port r of None \<Rightarrow> [] | Some n \<Rightarrow> 58 # py_str_int n"
  have p: "list_all (\<lambda>c. is_authority_char c \<and> \<not> is_ascii_control c) ?P"
    using port_chars [of "port r"] port_table unfolding list_all_iff by blast
  have b: "is_authority_char 91 \<and> \<not> is_ascii_control 91"
    "is_authority_char 93 \<and> \<not> is_ascii_control 93"
    "is_authority_char 64 \<and> \<not> is_ascii_control 64"
    by (simp_all add: is_authority_char_def is_ascii_control_def)
  have au: "authority r = (if userinfo r \<noteq> [] then userinfo r @ [64] else []) @
      (if 58 \<in> set (host r) then [91] @ host r @ [93] else host r) @ ?P"
    by (simp add: authority_def)
  show ?thesis unfolding au using ui ho p b by simp
qed

lemma to_str_no_control:
  assumes sc: "list_all (\<lambda>c. \<not> is_ascii_control c) (scheme r)"
    and au: "list_all (\<lambda>c. \<not> is_ascii_control c) (authority r)"
    and pa: "list_all (\<lambda>c. \<not> is_ascii_control c) (path r)"
    and qu: "\<forall>x. query r = Some x \<longrightarrow> list_all (\<lambda>c. \<not> is_ascii_control c) x"
    and fr: "\<forall>x. fragment r = Some x \<longrightarrow> list_all (\<lambda>c. \<not> is_ascii_control c) x"
  shows "\<not> list_ex is_ascii_control (to_str r)"
proof -
  have b: "\<not> is_ascii_control 58" "\<not> is_ascii_control 47" "\<not> is_ascii_control 63"
    "\<not> is_ascii_control 35"
    by (simp_all add: is_ascii_control_def)
  have "list_all (\<lambda>c. \<not> is_ascii_control c) (to_str r)"
    unfolding to_str_def using sc au pa qu fr b by (auto split: option.splits)
  then show ?thesis by (simp add: list_all_iff list_ex_iff)
qed

text \<open>The scheme of a result is empty or starts with a letter, and is in lower case.\<close>

lemma match_scheme_head:
  "fst (match_scheme url) = Some s \<Longrightarrow> s \<noteq> [] \<and> is_alpha (hd s)"
  by (auto simp: match_scheme_def split: list.splits if_splits)

lemma merged_scheme_head:
  assumes p: "prepare_kwargs kw = Inr kw'"
  shows "c_scheme (merge_components url kw') = [] \<or> is_alpha (hd (c_scheme (merge_components url kw')))"
proof -
  have s: "c_scheme (merge_components url kw') =
      or_empty (dict_get kw' ''scheme'' (g_scheme (URL_REGEX_match url)))"
    by (simp add: merge_components_def Let_def)
  show ?thesis
  proof (cases "map_of kw' ''scheme''")
    case None
    then have "c_scheme (merge_components url kw') = or_empty (fst (match_scheme url))"
      by (simp add: s dict_get_def g_scheme_match)
    with match_scheme_head [of url] show ?thesis
      by (cases "fst (match_scheme url)") (simp_all add: or_empty_def)
  next
    case (Some w)
    show ?thesis
    proof (cases w)
      case None
      with Some show ?thesis by (simp add: s dict_get_def or_empty_def)
    next
      case (Some v)
      with \<open>map_of kw' ''scheme'' = Some w\<close> have m: "map_of kw' ''scheme'' = Some (Some v)" by simp
      from validate_kwargs_value [OF prepare_kwargs_valid [OF p] m]
      have "v = [] \<or> is_alpha (hd v)"
        by (auto simp: COMPONENT_REGEX_fullmatch_def split: list.splits)
      with m show ?thesis by (simp add: s dict_get_def or_empty_def)
    qed
  qed
qed

lemma ascii_lower_idem: "ascii_lower (ascii_lower c) = ascii_lower c"
  by (simp add: ascii_lower_def)

lemma py_lower_scheme_fixed:
  assumes a: "list_all is_scheme_char s" and h: "s = [] \<or> is_alpha (hd s)"
  shows "py_lower lib (py_lower lib s) = py_lower lib s"
    and "py_lower lib s = [] \<or>
         (is_alpha (hd (py_lower lib s)) \<and> list_all is_scheme_char (tl (py_lower lib s)))"
    and "(py_lower lib s = []) = (s = [])"
proof -
  from a have l: "list_all (\<lambda>c. c < 128) s"
    by (auto simp: list_all_iff is_scheme_char_def is_alpha_def is_digit_def)
  then have e: "py_lower lib s = map ascii_lower s" by (simp add: py_lower_def)
  from l have l2: "list_all (\<lambda>c. c < 128) (map ascii_lower s)"
    by (auto simp: list_all_iff ascii_lower_def)
  then have "py_lower lib (map ascii_lower s) = map ascii_lower (map ascii_lower s)"
    by (simp add: py_lower_def)
  then show "py_lower lib (py_lower lib s) = py_lower lib s"
    unfolding e by (simp add: ascii_lower_idem)
  show "(py_lower lib s = []) = (s = [])" unfolding e by simp
  show "py_lower lib s = [] \<or>
         (is_alpha (hd (py_lower lib s)) \<and> list_all is_scheme_char (tl (py_lower lib s)))"
  proof (cases s)
    case Nil
    then show ?thesis unfolding e by simp
  next
    case (Cons c cs)
    with h have "is_alpha c" by simp
    then have 1: "is_alpha (ascii_lower c)" by (auto simp: is_alpha_def ascii_lower_def)
    from a Cons have "list_all is_scheme_char cs" by simp
    then have 2: "list_all is_scheme_char (map ascii_lower cs)"
      by (auto simp: list_all_iff ascii_lower_def is_scheme_char_def is_alpha_def is_digit_def)
    from 1 2 Cons show ?thesis unfolding e by simp
  qed
qed

text \<open>What the first parse leaves in a result: every quoted field is a fixed point.\<close>

lemma quote_opt_idempotent:
  "quote_opt v safe = Inr w \<Longrightarrow> quote_opt w safe = Inr w"
proof (cases v)
  case None
  assume "quote_opt v safe = Inr w"
  with None show ?thesis by (simp add: quote_opt_def)
next
  case (Some s)
  assume "quote_opt v safe = Inr w"
  with Some obtain t where t: "quote s safe = Inr t" "w = Some t"
    by (auto simp: quote_opt_def bind_Inr_iff)
  from quote_idempotent [OF t(1)] t(2) show ?thesis by (simp add: quote_opt_def bind_def)
qed

lemma urlparse_fixed:
  assumes p: "urlparse lib url kw = Inr r"
  shows "scheme r = [] \<or> (is_alpha (hd (scheme r)) \<and> list_all is_scheme_char (tl (scheme r)))"
    and "py_lower lib (scheme r) = scheme r"
    and "quote (userinfo r) (SUB_DELIMS @ u '':'') = Inr (userinfo r)"
    and "quote (path r) (SUB_DELIMS @ u '':@/'') = Inr (path r)"
    and "quote_opt (query r) (SUB_DELIMS @ u ''/?'') = Inr (query r)"
    and "quote_opt (fragment r) (SUB_DELIMS @ u ''/?'') = Inr (fragment r)"
    and "authority r \<noteq> [] \<Longrightarrow> (path r = [] \<or> hd (path r) = 47) \<and> normalize_path (path r) = path r"
proof -
  from urlparse_InrD [OF p] obtain kw' where
    pk: "prepare_kwargs kw = Inr kw'" and
    n: "normalize_components lib (merge_components url kw') = Inr r" by blast
  let ?c = "merge_components url kw'"
  from normalize_components_InrD [OF n] obtain p1 where
    us: "quote (c_userinfo ?c) (SUB_DELIMS @ u '':'') = Inr (userinfo r)" and
    ho: "encode_host lib (c_host ?c) = Inr (host r)" and
    po: "normalize_port lib (c_port ?c) (c_scheme ?c) = Inr (port r)" and
    ap: "authority_path ?c = Inr p1" and
    qp: "quote p1 (SUB_DELIMS @ u '':@/'') = Inr (path r)" and
    qq: "quote_opt (c_query ?c) (SUB_DELIMS @ u ''/?'') = Inr (query r)" and
    qf: "quote_opt (c_fragment ?c) (SUB_DELIMS @ u ''/?'') = Inr (fragment r)" and
    sc: "scheme r = py_lower lib (c_scheme ?c)"
    by blast
  note sh = py_lower_scheme_fixed [OF merged_scheme_shape [OF pk, of url]
      merged_scheme_head [OF pk, of url], of lib]
  show "scheme r = [] \<or> (is_alpha (hd (scheme r)) \<and> list_all is_scheme_char (tl (scheme r)))"
    unfolding sc by (rule sh(2))
  show "py_lower lib (scheme r) = scheme r" unfolding sc by (rule sh(1))
  show "quote (userinfo r) (SUB_DELIMS @ u '':'') = Inr (userinfo r)"
    by (rule quote_idempotent [OF us])
  show "quote (path r) (SUB_DELIMS @ u '':@/'') = Inr (path r)"
    by (rule quote_idempotent [OF qp])
  show "quote_opt (query r) (SUB_DELIMS @ u ''/?'') = Inr (query r)"
    by (rule quote_opt_idempotent [OF qq])
  show "quote_opt (fragment r) (SUB_DELIMS @ u ''/?'') = Inr (fragment r)"
    by (rule quote_opt_idempotent [OF qf])
  show "(path r = [] \<or> hd (path r) = 47) \<and> normalize_path (path r) = path r"
    if a: "authority r \<noteq> []"
  proof -
    from authority_nonempty [OF a] have "userinfo r \<noteq> [] \<or> host r \<noteq> [] \<or> port r \<noteq> None" .
    then have raw: "c_userinfo ?c \<noteq> [] \<or> c_host ?c \<noteq> [] \<or> or_empty (c_port ?c) \<noteq> []"
    proof (elim disjE)
      assume "userinfo r \<noteq> []"
      with us quote_Nil [of "SUB_DELIMS @ u '':''"] show ?thesis by auto
    next
      assume "host r \<noteq> []"
      with ho encode_host_Nil [of lib] show ?thesis by auto
    next
      assume "port r \<noteq> None"
      with po normalize_port_empty [of "c_port ?c" lib "c_scheme ?c"] show ?thesis by auto
    qed
    from authority_path_absolute [OF ap raw] have ab: "p1 = [] \<or> hd p1 = 47" .
    have s: "47 \<in> set (SUB_DELIMS @ u '':@/'')" by (simp add: u_def)
    from quote_keeps_slash [OF qp s ab] have 1: "path r = [] \<or> hd (path r) = 47" .
    from ap raw have "p1 = normalize_path (c_path ?c)"
      by (auto simp: authority_path_def bind_Inr_iff split: if_splits)
    with qp have "quote (normalize_path (c_path ?c)) (SUB_DELIMS @ u '':@/'') = Inr (path r)"
      by simp
    from quote_normalized [OF this s] have 2: "normalize_path (path r) = path r" .
    from 1 2 show ?thesis by simp
  qed
qed

lemma prepare_kwargs_Nil: "prepare_kwargs [] = Inr []"
  by (simp add: prepare_kwargs_def netloc_step_def userinfo_step_def full_path_step_def
      host_step_def has_key_def bind_def)

lemma authority_Nil_iff:
  "authority r = [] \<longleftrightarrow> userinfo r = [] \<and> host r = [] \<and> port r = None"
  by (auto simp: authority_def split: option.splits)

lemma reparse_too_long:
  "MAX_URL_LENGTH < length (to_str r) \<Longrightarrow> urlparse lib (to_str r) [] = Inl InvalidURL"
  by (simp add: urlparse_def)

text \<open>
  A path of 65536 letters and a query pass every check, and the canonical string of the
  result is longer than a URL may be.
\<close>

lemma quote_plain:
  "list_all (\<lambda>c. c \<in> set (UNRESERVED_CHARACTERS @ safe)) s \<Longrightarrow> quote s safe = Inr s"
proof -
  assume "list_all (\<lambda>c. c \<in> set (UNRESERVED_CHARACTERS @ safe)) s"
  with unreserved_non_escaped [of safe s]
  have "list_all (\<lambda>c. c \<in> set (NON_ESCAPED_CHARS s safe)) s"
    by (auto simp: list_all_iff)
  then show ?thesis unfolding quote_def by (rule quote_chars_id)
qed

lemma urlparse_long_path:
  assumes n: "n \<le> MAX_URL_LENGTH"
  shows "urlparse lib [] [(''path'', Some (replicate n 97)), (''query'', Some (u ''b''))] =
     Inr \<lparr>scheme = [], userinfo = [], host = [], port = None, path = replicate n 97,
          query = Some (u ''b''), fragment = None\<rparr>"
proof -
  let ?kw = "[(''path'', Some (replicate n 97)), (''query'', Some (u ''b''))]"
  have a: "97 \<in> set (UNRESERVED_CHARACTERS @ SUB_DELIMS @ u '':@/'')"
    by (simp add: UNRESERVED_CHARACTERS_def u_def)
  then have q: "quote (replicate n 97) (SUB_DELIMS @ u '':@/'') = Inr (replicate n 97)"
    by (intro quote_plain) (auto simp: list_all_iff)
  have v: "validate_kwargs ?kw = Inr ()"
    using n by (simp add: list_ex_iff list_all_iff COMPONENT_REGEX_fullmatch_def is_path_char_def
        is_ascii_control_def u_def MAX_URL_LENGTH_def)
  have st: "userinfo_step (netloc_step ?kw) = Inr ?kw"
    by (simp add: netloc_step_def userinfo_step_def has_key_def)
  have hs: "host_step (full_path_step ?kw) = ?kw"
    by (simp add: full_path_step_def host_step_def has_key_def)
  have pk: "prepare_kwargs ?kw = Inr ?kw"
    unfolding prepare_kwargs_def st bind_def sum.case hs v by (rule refl)
  have mc: "merge_components [] ?kw =
     \<lparr>c_scheme = [], c_userinfo = [], c_host = [], c_port = Some [], c_path = replicate n 97,
      c_query = Some (u ''b''), c_fragment = None\<rparr>"
    by (simp add: merge_components_def URL_REGEX_match_def AUTHORITY_REGEX_match_def
        match_scheme_def match_authority_def match_query_def match_fragment_def
        match_userinfo_def match_host_def match_port_def dict_get_def or_empty_def)
  have qb: "quote_opt (Some (u ''b'')) (SUB_DELIMS @ u ''/?'') = Inr (Some (u ''b''))"
    by (simp add: ev)
  have nc: "normalize_components lib
     \<lparr>c_scheme = [], c_userinfo = [], c_host = [], c_port = Some [], c_path = replicate n 97,
      c_query = Some (u ''b''), c_fragment = None\<rparr> =
     Inr \<lparr>scheme = [], userinfo = [], host = [], port = None, path = replicate n 97,
          query = Some (u ''b''), fragment = None\<rparr>"
    by (simp add: normalize_components_def quote_Nil encode_host_Nil normalize_port_def
        authority_path_def or_empty_def q qb py_lower_def bind_def)
      (simp add: quote_opt_def)
  show ?thesis
    by (simp add: urlparse_def pk mc nc bind_def)
qed

lemma to_str_long_path:
  "length (to_str \<lparr>scheme = [], userinfo = [], host = [], port = None, path = replicate n 97,
          query = Some (u ''b''), fragment = None\<rparr>) = n + 2"
  by (simp add: to_str_def authority_def u_def)

lemmas evs = to_str_def authority_def py_str_int_def digits_of.simps

text \<open>
  C1, as the claim states it, fails. \<open>"http:////foo"\<close> has an empty authority and
  the path \<open>"//foo"\<close>; its canonical string is \<open>"http://foo"\<close>, where \<open>foo\<close>
  is the host. The override \<open>path="a:b"\<close> gives the canonical string \<open>"a:b"\<close>,
  where \<open>a\<close> is the scheme. \<open>"HTTP://a:80/"\<close> keeps the port 80, which the
  string \<open>"http://a:80/"\<close> loses. The host of \<open>"http://a^b/"\<close> is \<open>"a%5Eb"\<close>,
  which is lower-cased to \<open>"a%5eb"\<close> when it is parsed again; the host of
  \<open>"http://1 2345/"\<close> is \<open>"1%202345"\<close>, which is rejected as an IPv4 address when
  it is parsed again. With a library that accepts a zone identifier, the override
  \<open>host="[fe80::1%@]"\<close> gives the string \<open>"//[fe80::1%@]"\<close>, whose userinfo ends
  at the \<open>@\<close>. The overrides \<open>path\<close>, 65536 times the letter \<open>a\<close>, and
  \<open>query="b"\<close> give a canonical string of 65538 characters, which is rejected.
\<close>

theorem C1_counterexample:
  "urlparse strict_lib (u ''http:////foo'') [] =
     Inr \<lparr>scheme = u ''http'', userinfo = [], host = [], port = None,
          path = u ''//foo'', query = None, fragment = None\<rparr> \<and>
   to_str \<lparr>scheme = u ''http'', userinfo = [], host = [], port = None,
          path = u ''//foo'', query = None, fragment = None\<rparr> = u ''http://foo'' \<and>
   urlparse strict_lib (u ''http://foo'') [] =
     Inr \<lparr>scheme = u ''http'', userinfo = [], host = u ''foo'', port = None,
          path = [], query = None, fragment = None\<rparr> \<and>
   urlparse strict_lib [] [(''path'', Some (u ''a:b''))] =
     Inr \<lparr>scheme = [], userinfo = [], host = [], port = None,
          path = u ''a:b'', query = None, fragment = None\<rparr> \<and>
   to_str \<lparr>scheme = [], userinfo = [], host = [], port = None,
          path = u ''a:b'', query = None, fragment = None\<rparr> = u ''a:b'' \<and>
   urlparse strict_lib (u ''a:b'') [] =
     Inr \<lparr>scheme = u ''a'', userinfo = [], host = [], port = None,
          path = u ''b'', query = None, fragment = None\<rparr> \<and>
   urlparse strict_lib (u ''HTTP://a:80/'') [] =
     Inr \<lparr>scheme = u ''http'', userinfo = [], host = u ''a'', port = Some 80,
          path = u ''/'', query = None, fragment = None\<rparr> \<and>
   to_str \<lparr>scheme = u ''http'', userinfo = [], host = u ''a'', port = Some 80,
          path = u ''/'', query = None, fragment = None\<rparr> = u ''http://a:80/'' \<and>
   urlparse strict_lib (u ''http://a:80/'') [] =
     Inr \<lparr>scheme = u ''http'', userinfo = [], host = u ''a'', port = None,
          path = u ''/'', query = None, fragment = None\<rparr> \<and>
   urlparse strict_lib (u ''http://a^b/'') [] =
     Inr \<lparr>scheme = u ''http'', userinfo = [], host = u ''a%5Eb'', port = None,
          path = u ''/'', query = None, fragment = None\<rparr> \<and>
   to_str \<lparr>scheme = u ''http'', userinfo = [], host = u ''a%5Eb'', port = None,
          path = u ''/'', query = None, fragment = None\<rparr> = u ''http://a%5Eb/'' \<and>
   urlparse strict_lib (u ''http://a%5Eb/'') [] =
     Inr \<lparr>scheme = u ''http'', userinfo = [], host = u ''a%5eb'', port = None,
          path = u ''/'', query = None, fragment = None\<rparr> \<and>
   urlparse strict_lib (u ''http://1 2345/'') [] =
     Inr \<lparr>scheme = u ''http'', userinfo = [], host = u ''1%202345'', port = None,
          path = u ''/'', query = None, fragment = None\<rparr> \<and>
   to_str \<lparr>scheme = u ''http'', userinfo = [], host = u ''1%202345'', port = None,
          path = u ''/'', query = None, fragment = None\<rparr> = u ''http://1%202345/'' \<and>
   urlparse strict_lib (u ''http://1%202345/'') [] = Inl InvalidURL \<and>
   urlparse zone_lib [] [(''host'', Some (u ''[fe80::1%@]''))] =
     Inr \<lparr>scheme = [], userinfo = [], host = u ''fe80::1%@'', port = None,
          path = [], query = None, fragment = None\<rparr> \<and>
   to_str \<lparr>scheme = [], userinfo = [], host = u ''fe80::1%@'', port = None,
          path = [], query = None, fragment = None\<rparr> = u ''//[fe80::1%@]'' \<and>
   urlparse zone_lib (u ''//[fe80::1%@]'') [] =
     Inr \<lparr>scheme = [], userinfo = u ''%5Bfe80::1%25'', host = u ''%5D'', port = None,
          path = [], query = None, fragment = None\<rparr> \<and>
   urlparse strict_lib [] [(''path'', Some (replicate 65536 97)), (''query'', Some (u ''b''))] =
     Inr \<lparr>scheme = [], userinfo = [], host = [], port = None, path = replicate 65536 97,
          query = Some (u ''b''), fragment = None\<rparr> \<and>
   urlparse strict_lib
     (to_str \<lparr>scheme = [], userinfo = [], host = [], port = None, path = replicate 65536 97,
          query = Some (u ''b''), fragment = None\<rparr>) [] = Inl InvalidURL"
proof -
  have e: "urlparse strict_lib (u ''http:////foo'') [] =
     Inr \<lparr>scheme = u ''http'', userinfo = [], host = [], port = None,
          path = u ''//foo'', query = None, fragment = None\<rparr> \<and>
   to_str \<lparr>scheme = u ''http'', userinfo = [], host = [], port = None,
          path = u ''//foo'', query = None, fragment = None\<rparr> = u ''http://foo'' \<and>
   urlparse strict_lib (u ''http://foo'') [] =
     Inr \<lparr>scheme = u ''http'', userinfo = [], host = u ''foo'', port = None,
          path = [], query = None, fragment = None\<rparr> \<and>
   urlparse strict_lib [] [(''path'', Some (u ''a:b''))] =
     Inr \<lparr>scheme = [], userinfo = [], host = [], port = None,
          path = u ''a:b'', query = None, fragment = None\<rparr> \<and>
   to_str \<lparr>scheme = [], userinfo = [], host = [], port = None,
          path = u ''a:b'', query = None, fragment = None\<rparr> = u ''a:b'' \<and>
   urlparse strict_lib (u ''a:b'') [] =
     Inr \<lparr>scheme = u ''a'', userinfo = [], host = [], port = None,
          path = u ''b'', query = None, fragment = None\<rparr> \<and>
   urlparse strict_lib (u ''HTTP://a:80/'') [] =
     Inr \<lparr>scheme = u ''http'', userinfo = [], host = u ''a'', port = Some 80,
          path = u ''/'', query = None, fragment = None\<rparr> \<and>
   to_str \<lparr>scheme = u ''http'', userinfo = [], host = u ''a'', port = Some 80,
          path = u ''/'', query = None, fragment = None\<rparr> = u ''http://a:80/'' \<and>
   urlparse strict_lib (u ''http://a:80/'') [] =
     Inr \<lparr>scheme = u ''http'', userinfo = [], host = u ''a'', port = None,
          path = u ''/'', query = None, fragment = None\<rparr> \<and>
   urlparse strict_lib (u ''http://a^b/'') [] =
     Inr \<lparr>scheme = u ''http'', userinfo = [], host = u ''a%5Eb'', port = None,
          path = u ''/'', query = None, fragment = None\<rparr> \<and>
   to_str \<lparr>scheme = u ''http'', userinfo = [], host = u ''a%5Eb'', port = None,
          path = u ''/'', query = None, fragment = None\<rparr> = u ''http://a%5Eb/'' \<and>
   urlparse strict_lib (u ''http://a%5Eb/'') [] =
     Inr \<lparr>scheme = u ''http'', userinfo = [], host = u ''a%5eb'', port = None,
          path = u ''/'', query = None, fragment = None\<rparr> \<and>
   urlparse strict_lib (u ''http://1 2345/'') [] =
     Inr \<lparr>scheme = u ''http'', userinfo = [], host = u ''1%202345'', port = None,
          path = u ''/'', query = None, fragment = None\<rparr> \<and>
   to_str \<lparr>scheme = u ''http'', userinfo = [], host = u ''1%202345'', port = None,
          path = u ''/'', query = None, fragment = None\<rparr> = u ''http://1%202345/'' \<and>
   urlparse strict_lib (u ''http://1%202345/'') [] = Inl InvalidURL \<and>
   urlparse zone_lib [] [(''host'', Some (u ''[fe80::1%@]''))] =
     Inr \<lparr>scheme = [], userinfo = [], host = u ''fe80::1%@'', port = None,
          path = [], query = None, fragment = None\<rparr> \<and>
   to_str \<lparr>scheme = [], userinfo = [], host = u ''fe80::1%@'', port = None,
          path = [], query = None, fragment = None\<rparr> = u ''//[fe80::1%@]'' \<and>
   urlparse zone_lib (u ''//[fe80::1%@]'') [] =
     Inr \<lparr>scheme = [], userinfo = u ''%5Bfe80::1%25'', host = u ''%5D'', port = None,
          path = [], query = None, fragment = None\<rparr>"
    apply (intro conjI)
    apply (simp_all add: ev evs zone_lib_def strict_lib_def)
    done
  have "(65536::nat) \<le> MAX_URL_LENGTH" by (simp add: MAX_URL_LENGTH_def)
  then have l1: "urlparse strict_lib []
       [(''path'', Some (replicate 65536 97)), (''query'', Some (u ''b''))] =
     Inr \<lparr>scheme = [], userinfo = [], host = [], port = None, path = replicate 65536 97,
          query = Some (u ''b''), fragment = None\<rparr>"
    by (rule urlparse_long_path)
  have "MAX_URL_LENGTH < (65536::nat) + 2" by (simp add: MAX_URL_LENGTH_def)
  then have "MAX_URL_LENGTH < length (to_str \<lparr>scheme = [], userinfo = [], host = [],
      port = None, path = replicate 65536 97, query = Some (u ''b''), fragment = None\<rparr>)"
    by (simp only: to_str_long_path)
  then have l2: "urlparse strict_lib
     (to_str \<lparr>scheme = [], userinfo = [], host = [], port = None, path = replicate 65536 97,
          query = Some (u ''b''), fragment = None\<rparr>) [] = Inl InvalidURL"
    by (rule reparse_too_long)
  show ?thesis
    using e l1 l2
    apply (elim conjE)
    apply (intro conjI)
    apply assumption+
    done
qed

text \<open>
  C1, amended: let \<open>r\<close> be a result of \<open>urlparse\<close>, from any string and any
  overrides, and \<open>str r\<close> its canonical string. When
  \<^item> \<open>str r\<close> has at most 65536 characters,
  \<^item> the path of \<open>r\<close> does not begin with \<open>//\<close> if its authority is empty,
  \<^item> \<open>str r\<close> does not begin with a scheme and a colon (a letter, then letters,
    digits, \<open>+\<close>, \<open>.\<close> or \<open>-\<close>, then \<open>:\<close>) if the scheme of \<open>r\<close> is
    empty,
  \<^item> the port of \<open>r\<close>, if it has one, is not the default port of its scheme and,
    if it is not between 0 and 65535, is read back by \<open>int\<close> from its decimal form,
  \<^item> the host encoder returns the host of \<open>r\<close> on the host as \<open>str r\<close> writes
    it (in brackets if it has a colon), and that host, if it has a colon, has no
    control character and none of \<open>@/?#\<close>,

  then \<open>urlparse\<close> succeeds on \<open>str r\<close> and returns \<open>r\<close>: the seven fields are
  equal.
\<close>

theorem C1_round_trip:
  assumes p: "urlparse lib url kw = Inr r"
    and H1: "length (to_str r) \<le> MAX_URL_LENGTH"
    and H2: "authority r = [] \<longrightarrow> take 2 (path r) \<noteq> [47, 47]"
    and H3: "scheme r = [] \<longrightarrow> fst (match_scheme (to_str r)) = None"
    and H4: "\<forall>n. port r = Some n \<longrightarrow>
      default_port (scheme r) \<noteq> Some n \<and>
      (n < 0 \<or> 65535 < n \<longrightarrow> py_int lib (py_str_int n) = Some n)"
    and H5: "encode_host lib (if 58 \<in> set (host r) then [91] @ host r @ [93] else host r) =
      Inr (host r)"
    and H6: "58 \<in> set (host r) \<longrightarrow>
      list_all (\<lambda>c. \<not> is_ascii_control c \<and> c \<notin> set (u ''@/?#'')) (host r)"
  shows "urlparse lib (to_str r) [] = Inr r"
proof -
  note fx = urlparse_fixed [OF p]
  note hf = host_facts [OF H5 H6]
  have ui: "list_all (\<lambda>c. is_authority_char c \<and> c \<noteq> 64 \<and> \<not> is_ascii_control c) (userinfo r)"
    by (rule list_all_subset [OF quote_set [OF fx(3)] userinfo_table])
  have pc: "list_all (\<lambda>c. is_path_char c \<and> \<not> is_ascii_control c) (path r)"
    by (rule list_all_subset [OF quote_set [OF fx(4)] path_table])
  have qc: "list_all (\<lambda>c. c \<noteq> 35 \<and> c \<noteq> 10 \<and> \<not> is_ascii_control c) x" if "query r = Some x" for x
  proof -
    from fx(5) that have "quote x (SUB_DELIMS @ u ''/?'') = Inr x"
      by (auto simp: quote_opt_def bind_Inr_iff)
    from list_all_subset [OF quote_set [OF this] query_table] show ?thesis .
  qed
  have fc: "list_all (\<lambda>c. c \<noteq> 35 \<and> c \<noteq> 10 \<and> \<not> is_ascii_control c) x" if "fragment r = Some x" for x
  proof -
    from fx(6) that have "quote x (SUB_DELIMS @ u ''/?'') = Inr x"
      by (auto simp: quote_opt_def bind_Inr_iff)
    from list_all_subset [OF quote_set [OF this] query_table] show ?thesis .
  qed
  have sc: "list_all (\<lambda>c. \<not> is_ascii_control c) (scheme r)"
  proof (cases "scheme r")
    case Nil
    then show ?thesis by simp
  next
    case (Cons a s)
    with fx(1) have "is_scheme_char a" "list_all is_scheme_char s"
      by (auto simp: is_scheme_char_def)
    with Cons scheme_table show ?thesis by (auto simp: list_all_iff)
  qed
  have ac: "list_all (\<lambda>c. is_authority_char c \<and> \<not> is_ascii_control c) (authority r)"
  proof (rule authority_chars)
    from ui show "list_all (\<lambda>c. is_authority_char c \<and> \<not> is_ascii_control c) (userinfo r)"
      by (auto simp: list_all_iff)
    from hf(1) show "list_all (\<lambda>c. is_authority_char c \<and> \<not> is_ascii_control c) (host r)"
      by (auto simp: list_all_iff)
  qed
  have ctl: "\<not> list_ex is_ascii_control (to_str r)"
  proof (rule to_str_no_control [OF sc])
    from ac show "list_all (\<lambda>c. \<not> is_ascii_control c) (authority r)" by (auto simp: list_all_iff)
    from pc show "list_all (\<lambda>c. \<not> is_ascii_control c) (path r)" by (auto simp: list_all_iff)
    from qc show "\<forall>x. query r = Some x \<longrightarrow> list_all (\<lambda>c. \<not> is_ascii_control c) x"
      by (auto simp: list_all_iff)
    from fc show "\<forall>x. fragment r = Some x \<longrightarrow> list_all (\<lambda>c. \<not> is_ascii_control c) x"
      by (auto simp: list_all_iff)
  qed
  have ur: "URL_REGEX_match (to_str r) =
     \<lparr>g_scheme = (if scheme r = [] then None else Some (scheme r)),
      g_authority = (if authority r = [] then None else Some (authority r)),
      g_path = path r, g_query = query r, g_fragment = fragment r\<rparr>"
  proof (rule URL_REGEX_to_str [OF fx(1) _ _ _ H2 H3])
    from ac show "list_all is_authority_char (authority r)" by (auto simp: list_all_iff)
    from pc show "list_all is_path_char (path r)" by (auto simp: list_all_iff)
    from fx(7) show "authority r \<noteq> [] \<longrightarrow> path r = [] \<or> hd (path r) = 47" by blast
    from qc show "\<forall>x. query r = Some x \<longrightarrow> 35 \<notin> set x" by (auto simp: list_all_iff)
    from fc show "\<forall>x. fragment r = Some x \<longrightarrow> 10 \<notin> set x" by (auto simp: list_all_iff)
  qed
  have ar: "AUTHORITY_REGEX_match (authority r) =
     \<lparr>a_userinfo = (if userinfo r = [] then None else Some (userinfo r)),
      a_host = (if 58 \<in> set (host r) then [91] @ host r @ [93] else host r),
      a_port = Some (case port r of None \<Rightarrow> [] | Some n \<Rightarrow> py_str_int n)\<rparr>"
  proof (rule AUTHORITY_REGEX_authority [OF _ _ _ hf(2)])
    from ui show "64 \<notin> set (userinfo r)" by (auto simp: list_all_iff)
    from hf(1) show "64 \<notin> set (host r)" by (auto simp: list_all_iff)
    from hf(1) show "10 \<notin> set (host r)" by (auto simp: list_all_iff is_ascii_control_def)
  qed
  let ?c = "\<lparr>c_scheme = scheme r, c_userinfo = userinfo r,
      c_host = (if 58 \<in> set (host r) then [91] @ host r @ [93] else host r),
      c_port = Some (case port r of None \<Rightarrow> [] | Some n \<Rightarrow> py_str_int n),
      c_path = path r, c_query = query r, c_fragment = fragment r\<rparr>"
  have oe: "or_empty (if authority r = [] then None else Some (authority r)) = authority r"
    by (simp add: or_empty_def)
  have mc: "merge_components (to_str r) [] = ?c"
    unfolding merge_components_def Let_def ur
    by (simp add: dict_get_def oe ar) (simp add: or_empty_def)
  have np: "normalize_port lib (Some (case port r of None \<Rightarrow> [] | Some n \<Rightarrow> py_str_int n))
      (scheme r) = Inr (port r)"
    by (rule normalize_port_printed [OF H4])
  have ap: "authority_path ?c = Inr (path r)"
  proof (cases "authority r = []")
    case True
    then have "userinfo r = []" "host r = []" "port r = None" by (simp_all add: authority_Nil_iff)
    then show ?thesis by (simp add: authority_path_def or_empty_def)
  next
    case False
    from fx(7) [OF False] have "path r = [] \<or> hd (path r) = 47" "normalize_path (path r) = path r"
      by simp_all
    then show ?thesis
      by (auto simp: authority_path_def validate_absolute_path_def bind_def)
  qed
  have nc: "normalize_components lib ?c = Inr r"
    unfolding normalize_components_def
    by (simp only: components.simps fx(2) fx(3) fx(4) fx(5) fx(6) H5 np ap bind_def sum.case)
      simp
  from H1 ctl show ?thesis
    by (simp add: urlparse_def prepare_kwargs_Nil bind_def mc nc)
qed

theorem C1_round_trip_witness:
  "urlparse strict_lib (u ''HTTP://User@Example.com:8080/a/./b/../c d?x=1#y'') [] =
     Inr \<lparr>scheme = u ''http'', userinfo = u ''User'', host = u ''example.com'',
          port = Some 8080, path = u ''/a/c%20d'', query = Some (u ''x=1''),
          fragment = Some (u ''y'')\<rparr> \<and>
   to_str \<lparr>scheme = u ''http'', userinfo = u ''User'', host = u ''example.com'',
          port = Some 8080, path = u ''/a/c%20d'', query = Some (u ''x=1''),
          fragment = Some (u ''y'')\<rparr> = u ''http://User@example.com:8080/a/c%20d?x=1#y'' \<and>
   urlparse strict_lib (u ''http://User@example.com:8080/a/c%20d?x=1#y'') [] =
     Inr \<lparr>scheme = u ''http'', userinfo = u ''User'', host = u ''example.com'',
          port = Some 8080, path = u ''/a/c%20d'', query = Some (u ''x=1''),
          fragment = Some (u ''y'')\<rparr> \<and>
   urlparse zone_lib (u ''HTTPS://[fe80::1%25eth0]:8443/x y'') [] =
     Inr \<lparr>scheme = u ''https'', userinfo = [], host = u ''fe80::1%25eth0'', port = Some 8443,
          path = u ''/x%20y'', query = None, fragment = None\<rparr> \<and>
   to_str \<lparr>scheme = u ''https'', userinfo = [], host = u ''fe80::1%25eth0'', port = Some 8443,
          path = u ''/x%20y'', query = None, fragment = None\<rparr> =
     u ''https://[fe80::1%25eth0]:8443/x%20y'' \<and>
   urlparse zone_lib (u ''https://[fe80::1%25eth0]:8443/x%20y'') [] =
     Inr \<lparr>scheme = u ''https'', userinfo = [], host = u ''fe80::1%25eth0'', port = Some 8443,
          path = u ''/x%20y'', query = None, fragment = None\<rparr>"
proof -
  let ?r = "\<lparr>scheme = u ''http'', userinfo = u ''User'', host = u ''example.com'',
          port = Some 8080, path = u ''/a/c%20d'', query = Some (u ''x=1''),
          fragment = Some (u ''y'')\<rparr>"
  let ?z = "\<lparr>scheme = u ''https'', userinfo = [], host = u ''fe80::1%25eth0'',
          port = Some 8443, path = u ''/x%20y'', query = None, fragment = None\<rparr>"
  have a: "urlparse strict_lib (u ''HTTP://User@Example.com:8080/a/./b/../c d?x=1#y'') [] = Inr ?r"
    by (simp add: ev strict_lib_def)
  have s: "to_str ?r = u ''http://User@example.com:8080/a/c%20d?x=1#y''"
    by (simp add: evs u_def)
  have h1: "length (to_str ?r) \<le> MAX_URL_LENGTH"
    unfolding s by (simp add: u_def MAX_URL_LENGTH_def)
  have h2: "authority ?r = [] \<longrightarrow> take 2 (path ?r) \<noteq> [47, 47]"
    by (simp add: evs u_def)
  have h3: "scheme ?r = [] \<longrightarrow> fst (match_scheme (to_str ?r)) = None"
    by (simp add: u_def)
  have h4: "\<forall>n. port ?r = Some n \<longrightarrow>
      default_port (scheme ?r) \<noteq> Some n \<and>
      (n < 0 \<or> 65535 < n \<longrightarrow> py_int strict_lib (py_str_int n) = Some n)"
    by (simp add: default_port_def u_def)
  have h5: "encode_host strict_lib
      (if 58 \<in> set (host ?r) then [91] @ host ?r @ [93] else host ?r) = Inr (host ?r)"
    by (simp add: ev strict_lib_def)
  have h6: "58 \<in> set (host ?r) \<longrightarrow>
      list_all (\<lambda>c. \<not> is_ascii_control c \<and> c \<notin> set (u ''@/?#'')) (host ?r)"
    by (simp add: u_def)
  have b: "urlparse strict_lib (u ''http://User@example.com:8080/a/c%20d?x=1#y'') [] = Inr ?r"
    using C1_round_trip [OF a h1 h2 h3 h4 h5 h6] unfolding s .
  have za: "urlparse zone_lib (u ''HTTPS://[fe80::1%25eth0]:8443/x y'') [] = Inr ?z"
    by (simp add: ev zone_lib_def strict_lib_def)
  have zs: "to_str ?z = u ''https://[fe80::1%25eth0]:8443/x%20y''"
    by (simp add: evs u_def)
  have z1: "length (to_str ?z) \<le> MAX_URL_LENGTH"
    unfolding zs by (simp add: u_def MAX_URL_LENGTH_def)
  have z2: "authority ?z = [] \<longrightarrow> take 2 (path ?z) \<noteq> [47, 47]"
    by (simp add: evs u_def)
  have z3: "scheme ?z = [] \<longrightarrow> fst (match_scheme (to_str ?z)) = None"
    by (simp add: u_def)
  have z4: "\<forall>n. port ?z = Some n \<longrightarrow>
      default_port (scheme ?z) \<noteq> Some n \<and>
      (n < 0 \<or> 65535 < n \<longrightarrow> py_int zone_lib (py_str_int n) = Some n)"
    by (simp add: default_port_def u_def)
  have z5: "encode_host zone_lib
      (if 58 \<in> set (host ?z) then [91] @ host ?z @ [93] else host ?z) = Inr (host ?z)"
    by (simp add: ev zone_lib_def strict_lib_def)
  have z6: "58 \<in> set (host ?z) \<longrightarrow>
      list_all (\<lambda>c. \<not> is_ascii_control c \<and> c \<notin> set (u ''@/?#'')) (host ?z)"
    by (simp add: u_def is_ascii_control_def)
  have zb: "urlparse zone_lib (u ''https://[fe80::1%25eth0]:8443/x%20y'') [] = Inr ?z"
    using C1_round_trip [OF za z1 z2 z3 z4 z5 z6] unfolding zs .
  from a s b za zs zb show ?thesis by (intro conjI)
qed

end
